theory Spec2Isabelle
  imports Main
begin

section \<open>The error log of the footer panel\<close>

text \<open>
  The front end keeps the messages of the footer in the global array \<open>errors\<close>, together
  with the scroll position \<open>errorScrollIndex\<close> and the \<open>expanded\<close> class of the footer
  element. \<open>renderErrors\<close> only rewrites the DOM from these variables, so it does not
  appear in the state.
\<close>

record error_panel =
  errors :: "string list"
  errorScrollIndex :: int
  footer_expanded :: bool

definition error_panel_init :: error_panel where
  "error_panel_init = \<lparr>errors = [], errorScrollIndex = 0, footer_expanded = False\<rparr>"

text \<open>
  \<open>errors.unshift(message); if (errors.length > 50) errors.pop();\<close>:
  \<open>unshift\<close> conses at the front, \<open>pop\<close> removes the last element.
\<close>

definition showError :: "string \<Rightarrow> error_panel \<Rightarrow> error_panel" where
  "showError message s =
     (let unshifted = message # errors s;
          popped = (if length unshifted > 50 then butlast unshifted else unshifted)
      in s\<lparr>errors := popped, footer_expanded := True\<rparr>)"

definition clearErrors :: "error_panel \<Rightarrow> error_panel" where
  "clearErrors s = s\<lparr>errors := [], errorScrollIndex := 0, footer_expanded := False\<rparr>"

text \<open>
  \<open>errorScrollIndex = Math.max(0, Math.min(errors.length - 5, errorScrollIndex + direction))\<close>
\<close>

definition scrollErrors :: "int \<Rightarrow> error_panel \<Rightarrow> error_panel" where
  "scrollErrors direction s =
     s\<lparr>errorScrollIndex :=
          max 0 (min (int (length (errors s)) - 5) (errorScrollIndex s + direction))\<rparr>"

datatype panel_call = ShowError string | ClearErrors | ScrollErrors int

fun apply_call :: "error_panel \<Rightarrow> panel_call \<Rightarrow> error_panel" where
  "apply_call s (ShowError message) = showError message s"
| "apply_call s ClearErrors = clearErrors s"
| "apply_call s (ScrollErrors direction) = scrollErrors direction s"

definition panel_calls :: "panel_call list \<Rightarrow> error_panel" where
  "panel_calls calls = foldl apply_call error_panel_init calls"


section \<open>Escaping text for HTML\<close>

text \<open>
  \<open>str.replace(/c/g, r)\<close> with a one-character pattern replaces every occurrence of the
  character, left to right, by \<open>r\<close>; the other characters are kept.
\<close>

definition replace_all :: "char \<Rightarrow> string \<Rightarrow> string \<Rightarrow> string" where
  "replace_all c r str = concat (map (\<lambda>x. if x = c then r else [x]) str)"

definition escapeHtml :: "string \<Rightarrow> string" where
  "escapeHtml str =
     replace_all (CHR 0x22) ''&quot;''
       (replace_all CHR ''>'' ''&gt;''
         (replace_all CHR ''<'' ''&lt;''
           (replace_all CHR ''&'' ''&amp;'' str)))"

definition html_entities :: "string list" where
  "html_entities = [''&amp;'', ''&lt;'', ''&gt;'', ''&quot;'']"

text \<open>The text that one source character becomes after the four replacements.\<close>

definition escape_char :: "char \<Rightarrow> string" where
  "escape_char c =
     (if c = CHR ''&'' then ''&amp;''
      else if c = CHR ''<'' then ''&lt;''
      else if c = CHR ''>'' then ''&gt;''
      else if c = CHR 0x22 then ''&quot;''
      else [c])"

text \<open>Every ampersand of a text starts one of the four entities.\<close>

fun amp_starts_entity :: "string \<Rightarrow> bool" where
  "amp_starts_entity [] = True"
| "amp_starts_entity (c # cs) =
     ((if c = CHR ''&'' then list_ex (\<lambda>e. take (length e) (c # cs) = e) html_entities else True)
      \<and> amp_starts_entity cs)"


section \<open>The bounded task pool\<close>

text \<open>
  \<open>runWithConcurrency(items, concurrency, fn)\<close> is an asynchronous loop on one thread.
  Its state is the local array \<open>queue\<close>, the local array \<open>running\<close> of promises, and
  the point of control. A promise is named by its handle: the number of calls of \<open>fn\<close>
  made before the call that created it. Everything \<open>fn\<close> reads or writes outside the
  pool is the component \<open>world\<close>.

  A call \<open>fn(item)\<close> of an asynchronous function runs its synchronous part at once
  (\<open>on_call\<close>) and returns a pending promise. Later the promise settles (\<open>on_settle\<close>,
  which also says whether it is rejected); then the callback given to \<open>finally\<close> runs and
  removes the derived promise from \<open>running\<close>, and the derived promise settles the same
  way. Callbacks run in the order in which they were queued.
\<close>

datatype pc = Outer | Inner | Await | Done | Thrown

record ('a, 'w) worker =
  on_call :: "nat \<Rightarrow> 'a \<Rightarrow> 'w \<Rightarrow> 'w"
  on_settle :: "nat \<Rightarrow> 'a \<Rightarrow> 'w \<Rightarrow> bool \<times> 'w"

record ('a, 'w) pool =
  queue :: "'a list"
  running :: "nat list"
  started :: nat
  working :: "(nat \<times> 'a) list"
  finished :: "(nat \<times> bool) list"
  race :: "bool option"
  pc :: pc
  world :: 'w

text \<open>\<open>const queue = [...items]; const running = [];\<close>\<close>

definition pool_init :: "'a list \<Rightarrow> 'w \<Rightarrow> ('a, 'w) pool" where
  "pool_init items w =
     \<lparr>queue = items, running = [], started = 0, working = [], finished = [],
      race = None, pc = Outer, world = w\<rparr>"

text \<open>
  One round of the inner loop: \<open>queue.shift()\<close>, the call \<open>fn(item)\<close>,
  \<open>running.push(promise)\<close>. It is only taken with a non-empty queue.
\<close>

definition dispatch :: "('a, 'w) worker \<Rightarrow> ('a, 'w) pool \<Rightarrow> ('a, 'w) pool" where
  "dispatch fn s =
     (let item = hd (queue s); k = started s
      in s\<lparr>queue := tl (queue s),
           world := on_call fn k item (world s),
           working := working s @ [(k, item)],
           running := running s @ [k],
           started := Suc k\<rparr>)"

text \<open>The promise returned by the call with handle \<open>k\<close> settles.\<close>

definition finish :: "('a, 'w) worker \<Rightarrow> nat \<times> 'a \<Rightarrow> ('a, 'w) pool \<Rightarrow> ('a, 'w) pool" where
  "finish fn ki s =
     (let (rejected, w) = on_settle fn (fst ki) (snd ki) (world s)
      in s\<lparr>world := w,
           working := remove1 ki (working s),
           finished := finished s @ [(fst ki, rejected)]\<rparr>)"

text \<open>
  The callback of \<open>finally\<close>:
  \<open>const index = running.indexOf(promise); if (index > -1) running.splice(index, 1);\<close>
  removes the first occurrence, if there is one. The derived promise then settles, and
  settles \<open>Promise.race(running)\<close> if that is still pending.
\<close>

definition unregister :: "nat \<times> bool \<Rightarrow> ('a, 'w) pool \<Rightarrow> ('a, 'w) pool" where
  "unregister kr s =
     s\<lparr>running := remove1 (fst kr) (running s),
       finished := tl (finished s),
       race := (case race s of None \<Rightarrow> Some (snd kr) | Some r \<Rightarrow> Some r)\<rparr>"

text \<open>
  The states that can follow a state. At \<open>Outer\<close> the condition of the outer \<open>while\<close> is
  tested, at \<open>Inner\<close> that of the inner one and, on leaving it, \<open>running.length > 0\<close>.
  At \<open>Await\<close> the loop is suspended in \<open>await Promise.race(running)\<close>: a pending call may
  settle, the oldest queued callback may run, and once the race has settled the loop
  resumes, by throwing when the winner was rejected.
\<close>

fun pool_steps :: "('a, 'w) worker \<Rightarrow> nat \<Rightarrow> ('a, 'w) pool \<Rightarrow> ('a, 'w) pool list" where
  "pool_steps fn concurrency s =
     (case pc s of
        Outer \<Rightarrow>
          [if length (queue s) > 0 \<or> length (running s) > 0
           then s\<lparr>pc := Inner\<rparr> else s\<lparr>pc := Done\<rparr>]
      | Inner \<Rightarrow>
          [if length (running s) < concurrency \<and> length (queue s) > 0
           then dispatch fn s
           else if length (running s) > 0
           then s\<lparr>pc := Await, race := None\<rparr>
           else s\<lparr>pc := Outer\<rparr>]
      | Await \<Rightarrow>
          map (\<lambda>ki. finish fn ki s) (working s)
          @ (case finished s of [] \<Rightarrow> [] | kr # _ \<Rightarrow> [unregister kr s])
          @ (case race s of
               None \<Rightarrow> []
             | Some rejected \<Rightarrow> [s\<lparr>pc := (if rejected then Thrown else Outer), race := None\<rparr>])
      | Done \<Rightarrow> []
      | Thrown \<Rightarrow> [])"

text \<open>The states a run can be in: every state between two steps of the loop.\<close>

inductive pool_reach ::
  "('a, 'w) worker \<Rightarrow> nat \<Rightarrow> ('a, 'w) pool \<Rightarrow> ('a, 'w) pool \<Rightarrow> bool"
  for fn :: "('a, 'w) worker" and concurrency :: nat and s0 :: "('a, 'w) pool" where
  reach_init: "pool_reach fn concurrency s0 s0"
| reach_step:
    "pool_reach fn concurrency s0 s \<Longrightarrow> s' \<in> set (pool_steps fn concurrency s)
     \<Longrightarrow> pool_reach fn concurrency s0 s'"

text \<open>
  Every run from the state returns or throws after finitely many steps, whichever
  pending call settles next.
\<close>

inductive pool_halts :: "('a, 'w) worker \<Rightarrow> nat \<Rightarrow> ('a, 'w) pool \<Rightarrow> bool"
  for fn :: "('a, 'w) worker" and concurrency :: nat where
  halts_final: "pc s = Done \<or> pc s = Thrown \<Longrightarrow> pool_halts fn concurrency s"
| halts_step:
    "pool_steps fn concurrency s \<noteq> [] \<Longrightarrow>
     (\<And>s'. s' \<in> set (pool_steps fn concurrency s) \<Longrightarrow> pool_halts fn concurrency s')
     \<Longrightarrow> pool_halts fn concurrency s"

text \<open>
  A run under a schedule: the list \<open>choices\<close> says, step by step, which of the possible
  next states is taken (the first one when the list is used up). The result is the state
  in which the function has returned or thrown, if that happens within \<open>fuel\<close> steps;
  a loop that is suspended for ever, or still going when the fuel is used up, gives
  \<open>None\<close>.
\<close>

fun pool_exec ::
  "('a, 'w) worker \<Rightarrow> nat \<Rightarrow> nat list \<Rightarrow> nat \<Rightarrow> ('a, 'w) pool \<Rightarrow> ('a, 'w) pool option" where
  "pool_exec fn concurrency choices 0 s =
     (if pc s = Done \<or> pc s = Thrown then Some s else None)"
| "pool_exec fn concurrency choices (Suc fuel) s =
     (if pc s = Done \<or> pc s = Thrown then Some s
      else case pool_steps fn concurrency s of
        [] \<Rightarrow> None
      | t # ts \<Rightarrow>
          pool_exec fn concurrency (tl choices) fuel
            ((t # ts) ! (case choices of [] \<Rightarrow> 0 | c # _ \<Rightarrow> c mod length (t # ts))))"

text \<open>A worker without effects whose promises are all fulfilled.\<close>

definition idle_worker :: "('a, unit) worker" where
  "idle_worker = \<lparr>on_call = (\<lambda>k item w. w), on_settle = (\<lambda>k item w. (False, w))\<rparr>"

text \<open>The weight of a state: it drops with every step when the limit is at least 1.\<close>

definition pool_weight :: "('a, 'w) pool \<Rightarrow> nat" where
  "pool_weight s =
     6 * length (queue s) + 5 * length (working s) + 4 * length (finished s)
     + (case pc s of
          Outer \<Rightarrow> (if queue s \<noteq> [] \<or> running s \<noteq> [] then 3 else 1)
        | Inner \<Rightarrow> 2
        | Await \<Rightarrow> (case race s of None \<Rightarrow> 1 | Some r \<Rightarrow> 4)
        | Done \<Rightarrow> 0
        | Thrown \<Rightarrow> 0)"


text \<open>
  The handles of the promises that have not been removed from \<open>running\<close>, and what holds
  between the steps of a run over \<open>items\<close>.
\<close>

definition handles :: "('a, 'w) pool \<Rightarrow> nat list" where
  "handles s = map fst (working s) @ map fst (finished s)"

definition pool_inv :: "'a list \<Rightarrow> ('a, 'w) pool \<Rightarrow> bool" where
  "pool_inv items s \<longleftrightarrow>
     started s \<le> length items \<and> queue s = drop (started s) items
     \<and> distinct (handles s) \<and> distinct (running s) \<and> set (running s) = set (handles s)
     \<and> (\<forall>k \<in> set (handles s). k < started s)
     \<and> (\<forall>ki \<in> set (working s). snd ki = items ! fst ki)
     \<and> (pc s = Await \<and> race s = None \<longrightarrow> running s \<noteq> [])
     \<and> (pc s = Done \<longrightarrow> queue s = [] \<and> running s = [])"








section \<open>Uploading files as tasks\<close>

text \<open>
  The task list of the task panel. A task identifier \<open>task-n\<close> is modelled by its number
  \<open>n\<close>, the value of \<open>taskIdCounter\<close> that \<open>generateTaskId\<close> returned. The optional
  fields \<open>error\<close> and \<open>syncId\<close> are options.
\<close>

datatype TaskType = Upload | Delete | Sync | Keepsync

datatype TaskStatus = Pending | Running | Completed | Failed

record Task =
  task_id :: nat
  task_type :: TaskType
  fileName :: string
  status :: TaskStatus
  error :: "string option"
  syncId :: "string option"

text \<open>
  The global variables that uploading reads and writes. Two components are logs kept
  for the properties proved of the batch and have no counterpart in the program:
  \<open>transitions\<close> records every status change that \<open>updateTaskStatus\<close> makes (identifier,
  old status, new status), and \<open>uploadFile_calls\<close> records the arguments of every call of
  \<open>api.uploadFile\<close>.
  Showing the panel and scheduling a render only touch the DOM.
\<close>

record app =
  currentProfileId :: "string option"
  currentBucket :: "string option"
  currentPrefix :: string
  tasks :: "Task list"
  taskIdCounter :: nat
  transitions :: "(nat \<times> TaskStatus \<times> TaskStatus) list"
  uploadFile_calls :: "(string \<times> string \<times> string \<times> string) list"

definition MAX_CONCURRENT_UPLOADS :: nat where
  "MAX_CONCURRENT_UPLOADS = 20"

text \<open>\<open>!x\<close> holds of \<open>null\<close> and of the empty string.\<close>

fun falsy :: "string option \<Rightarrow> bool" where
  "falsy None = True"
| "falsy (Some str) = (str = [])"

text \<open>
  \<open>filePath.split(/[/\\]/).pop() || filePath\<close>: the text after the last slash or
  backslash, and the whole path when that text is empty.
\<close>

definition last_segment :: "string \<Rightarrow> string" where
  "last_segment filePath =
     rev (takeWhile (\<lambda>c. c \<noteq> CHR ''/'' \<and> c \<noteq> CHR 0x5C) (rev filePath))"

definition file_name_of :: "string \<Rightarrow> string" where
  "file_name_of filePath =
     (if last_segment filePath = [] then filePath else last_segment filePath)"

text \<open>
  \<open>addTasksBatch\<close>: one pending task per file name, each with the identifier
  \<open>++taskIdCounter\<close>, put in front of \<open>tasks\<close> by \<open>tasks.unshift(...newTasks)\<close>.
\<close>

fun new_tasks :: "TaskType \<Rightarrow> nat \<Rightarrow> string list \<Rightarrow> Task list" where
  "new_tasks ty counter [] = []"
| "new_tasks ty counter (name # names) =
     \<lparr>task_id = Suc counter, task_type = ty, fileName = name, status = Pending,
      error = None, syncId = None\<rparr>
     # new_tasks ty (Suc counter) names"

definition addTasksBatch :: "TaskType \<Rightarrow> string list \<Rightarrow> app \<Rightarrow> Task list \<times> app" where
  "addTasksBatch ty fileNames g =
     (let newTasks = new_tasks ty (taskIdCounter g) fileNames
      in (newTasks,
          g\<lparr>tasks := newTasks @ tasks g,
            taskIdCounter := taskIdCounter g + length fileNames\<rparr>))"

text \<open>
  \<open>updateTaskStatus\<close>: \<open>tasks.find\<close> gives the first task with the identifier; its status
  is set, and its error only when \<open>error\<close> is given and not the empty string
  (\<open>if (error) task.error = error\<close>). Without such a task nothing happens.
\<close>

fun update_first :: "('a \<Rightarrow> bool) \<Rightarrow> ('a \<Rightarrow> 'a) \<Rightarrow> 'a list \<Rightarrow> 'a list" where
  "update_first P f [] = []"
| "update_first P f (x # xs) = (if P x then f x # xs else x # update_first P f xs)"

definition set_status :: "TaskStatus \<Rightarrow> string option \<Rightarrow> Task \<Rightarrow> Task" where
  "set_status st err task =
     task\<lparr>status := st, error := (if falsy err then error task else err)\<rparr>"

definition updateTaskStatus :: "nat \<Rightarrow> TaskStatus \<Rightarrow> string option \<Rightarrow> app \<Rightarrow> app" where
  "updateTaskStatus taskId st err g =
     (case find (\<lambda>t. task_id t = taskId) (tasks g) of
        None \<Rightarrow> g
      | Some task \<Rightarrow>
          g\<lparr>tasks := update_first (\<lambda>t. task_id t = taskId) (set_status st err) (tasks g),
            transitions := transitions g @ [(taskId, status task, st)]\<rparr>)"

text \<open>
  The function given to \<open>runWithConcurrency\<close>. Its synchronous part marks the task as
  running and calls \<open>api.uploadFile\<close>. \<open>outcome k\<close> is how the promise of the call with
  handle \<open>k\<close> settles: \<open>None\<close> when it is fulfilled, \<open>Some (String(err))\<close> when it is
  rejected with \<open>err\<close>. The rejection is caught, so the promise of the worker is always
  fulfilled.
\<close>

definition upload_worker ::
  "string \<Rightarrow> string \<Rightarrow> string \<Rightarrow> (nat \<Rightarrow> string option) \<Rightarrow> (string \<times> Task, app) worker" where
  "upload_worker profileId bucket prefix outcome =
     \<lparr>on_call = (\<lambda>k item g.
        let g1 = updateTaskStatus (task_id (snd item)) Running None g
        in g1\<lparr>uploadFile_calls :=
                uploadFile_calls g1 @ [(profileId, bucket, prefix, fst item)]\<rparr>),
      on_settle = (\<lambda>k item g.
        (False,
         case outcome k of
           None \<Rightarrow> updateTaskStatus (task_id (snd item)) Completed None g
         | Some err \<Rightarrow> updateTaskStatus (task_id (snd item)) Failed (Some err) g))\<rparr>"

text \<open>
  \<open>uploadFilesWithTasks\<close> up to the call of \<open>runWithConcurrency\<close>: nothing happens
  without a profile and a bucket; otherwise the tasks are created and the pool starts
  over the pairs of a path and its task, with the worker closed over the profile, the
  bucket and the prefix of that moment. The pool then runs with the limit
  \<open>MAX_CONCURRENT_UPLOADS\<close>.
\<close>

definition upload_items :: "app \<Rightarrow> string list \<Rightarrow> (string \<times> Task) list" where
  "upload_items g filePaths =
     zip filePaths (fst (addTasksBatch Upload (map file_name_of filePaths) g))"

definition uploadFilesWithTasks ::
  "(nat \<Rightarrow> string option) \<Rightarrow> app \<Rightarrow> string list
   \<Rightarrow> ((string \<times> Task, app) worker \<times> (string \<times> Task, app) pool) option" where
  "uploadFilesWithTasks outcome g filePaths =
     (case (currentProfileId g, currentBucket g) of
        (Some profileId, Some bucket) \<Rightarrow>
          if profileId = [] \<or> bucket = [] then None
          else Some (upload_worker profileId bucket (currentPrefix g) outcome,
                     pool_init (upload_items g filePaths)
                       (snd (addTasksBatch Upload (map file_name_of filePaths) g)))
      | _ \<Rightarrow> None)"

text \<open>
  The status changes of the task with identifier \<open>tid\<close> among those logged after the
  first \<open>n\<close>, and the terminal state that the outcome of an upload gives a task.
\<close>

definition changes_of :: "nat \<Rightarrow> nat \<Rightarrow> app \<Rightarrow> (TaskStatus \<times> TaskStatus) list" where
  "changes_of n tid g = map snd (filter (\<lambda>t. fst t = tid) (drop n (transitions g)))"

fun final_status :: "string option \<Rightarrow> TaskStatus" where
  "final_status None = Completed"
| "final_status (Some err) = Failed"

fun final_error :: "string option \<Rightarrow> string option" where
  "final_error None = None"
| "final_error (Some err) = (if err = [] then None else Some err)"


text \<open>
  Where the task of the file with index \<open>k\<close> stands in a state of the pool: 0 while the
  file is queued, 1 while its call is pending, 2 once the call has settled. \<open>lifecycle\<close>
  gives the status, the error and the logged status changes that belong to each.
\<close>

definition task_phase :: "('a, 'w) pool \<Rightarrow> nat \<Rightarrow> nat" where
  "task_phase s k =
     (if started s \<le> k then 0 else if k \<in> set (map fst (working s)) then 1 else 2)"

definition lifecycle ::
  "string option \<Rightarrow> nat \<Rightarrow> TaskStatus \<times> string option \<times> (TaskStatus \<times> TaskStatus) list" where
  "lifecycle result ph =
     (if ph = 0 then (Pending, None, [])
      else if ph = 1 then (Running, None, [(Pending, Running)])
      else (final_status result, final_error result,
            [(Pending, Running), (Running, final_status result)]))"

definition world_inv ::
  "(nat \<Rightarrow> string option) \<Rightarrow> string \<Rightarrow> string \<Rightarrow> app \<Rightarrow> string list
   \<Rightarrow> (nat \<Rightarrow> nat) \<Rightarrow> nat \<Rightarrow> app \<Rightarrow> bool" where
  "world_inv outcome profileId bucket g filePaths ph n w \<longleftrightarrow>
     length (tasks w) = length filePaths + length (tasks g)
     \<and> drop (length filePaths) (tasks w) = tasks g
     \<and> take (length (transitions g)) (transitions w) = transitions g
     \<and> length (transitions g) \<le> length (transitions w)
     \<and> uploadFile_calls w =
         uploadFile_calls g
         @ map (\<lambda>filePath. (profileId, bucket, currentPrefix g, filePath)) (take n filePaths)
     \<and> (\<forall>k < length filePaths.
           task_id (tasks w ! k) = Suc (taskIdCounter g + k)
           \<and> (status (tasks w ! k), error (tasks w ! k),
               changes_of (length (transitions g)) (Suc (taskIdCounter g + k)) w)
             = lifecycle (outcome k) (ph k))"


definition batch_inv ::
  "(nat \<Rightarrow> string option) \<Rightarrow> string \<Rightarrow> string \<Rightarrow> app \<Rightarrow> string list
   \<Rightarrow> (string \<times> Task, app) pool \<Rightarrow> bool" where
  "batch_inv outcome profileId bucket g filePaths s \<longleftrightarrow>
     pool_inv (upload_items g filePaths) s
     \<and> world_inv outcome profileId bucket g filePaths (task_phase s) (started s) (world s)"

text \<open>The states of the pool that \<open>uploadFilesWithTasks\<close> runs with the limit \<open>n\<close>.\<close>

definition upload_reach ::
  "nat \<Rightarrow> (nat \<Rightarrow> string option) \<Rightarrow> app \<Rightarrow> string list \<Rightarrow> (string \<times> Task, app) pool \<Rightarrow> bool" where
  "upload_reach n outcome g filePaths s \<longleftrightarrow>
     (\<exists>fn s0. uploadFilesWithTasks outcome g filePaths = Some (fn, s0) \<and> pool_reach fn n s0 s)"


text \<open>A state of the application with a profile and a bucket selected, for examples.\<close>

definition demo_app :: app where
  "demo_app =
     \<lparr>currentProfileId = Some ''p1'', currentBucket = Some ''photos'', currentPrefix = ''in/'',
      tasks = [], taskIdCounter = 0, transitions = [], uploadFile_calls = []\<rparr>"


text \<open>
  A worker never rejects when the promise of each of its calls is fulfilled; the pool is
  then calm: no settled call is marked as rejected, and the loop has not thrown.
\<close>

definition never_rejects :: "('a, 'w) worker \<Rightarrow> bool" where
  "never_rejects fn \<longleftrightarrow> (\<forall>k item w. \<not> fst (on_settle fn k item w))"

definition calm :: "('a, 'w) pool \<Rightarrow> bool" where
  "calm s \<longleftrightarrow> (\<forall>kr \<in> set (finished s). \<not> snd kr) \<and> race s \<noteq> Some True \<and> pc s \<noteq> Thrown"


text \<open>
  An example batch: two files under the limit 1; the upload of the first is rejected
  with the reason \<open>denied\<close>, that of the second is fulfilled. \<open>demo_final\<close> is the state
  in which the pool returns.
\<close>

definition demo_outcome :: "nat \<Rightarrow> string option" where
  "demo_outcome k = (if k = 0 then Some ''denied'' else None)"

definition demo_start :: "(string \<times> Task, app) pool" where
  "demo_start =
     pool_init (upload_items demo_app [''/tmp/a.txt'', ''b.txt''])
       (snd (addTasksBatch Upload (map file_name_of [''/tmp/a.txt'', ''b.txt'']) demo_app))"

definition demo_final :: "(string \<times> Task, app) pool" where
  "demo_final =
     \<lparr>queue = [], running = [], started = 2, working = [], finished = [],
      race = None, pc = Done,
      world =
        \<lparr>currentProfileId = Some ''p1'', currentBucket = Some ''photos'',
         currentPrefix = ''in/'',
         tasks =
           [\<lparr>task_id = 1, task_type = Upload, fileName = ''a.txt'',
             status = Failed, error = Some ''denied'', syncId = None\<rparr>,
            \<lparr>task_id = 2, task_type = Upload, fileName = ''b.txt'',
             status = Completed, error = None, syncId = None\<rparr>],
         taskIdCounter = 2,
         transitions =
           [(1, Pending, Running), (1, Running, Failed),
            (2, Pending, Running), (2, Running, Completed)],
         uploadFile_calls =
           [(''p1'', ''photos'', ''in/'', ''/tmp/a.txt''),
            (''p1'', ''photos'', ''in/'', ''b.txt'')]\<rparr>\<rparr>"


section \<open>The Sync action\<close>

text \<open>
  Calls of the backend. \<open>invoke(cmd, args)\<close> is recorded as the command name and the
  argument object, a list of keys and values in the order of the object literal.
\<close>

record invoke_call =
  command :: string
  arguments :: "(string \<times> string) list"

text \<open>The value that \<open>sync_folder\<close> resolves to (\<open>SyncResult\<close> in \<open>types.ts\<close>).\<close>

record SyncResult =
  uploaded :: int
  downloaded :: int
  deleted :: int
  skipped :: int

text \<open>
  \<open>api.syncFolder\<close>: \<open>invoke("sync_folder", {profileId, bucket, prefix, localPath,
  direction})\<close>.
\<close>

definition syncFolder :: "string \<Rightarrow> string \<Rightarrow> string \<Rightarrow> string \<Rightarrow> string \<Rightarrow> invoke_call" where
  "syncFolder profileId bucket prefix localPath direction =
     \<lparr>command = ''sync_folder'',
      arguments = [(''profileId'', profileId), (''bucket'', bucket), (''prefix'', prefix),
                   (''localPath'', localPath), (''direction'', direction)]\<rparr>"

text \<open>\<open>addTask\<close>: one pending task with the next identifier, put in front of \<open>tasks\<close>.\<close>

definition addTask :: "TaskType \<Rightarrow> string \<Rightarrow> app \<Rightarrow> Task \<times> app" where
  "addTask ty name g =
     (let task = \<lparr>task_id = Suc (taskIdCounter g), task_type = ty, fileName = name,
                  status = Pending, error = None, syncId = None\<rparr>
      in (task, g\<lparr>tasks := task # tasks g, taskIdCounter := Suc (taskIdCounter g)\<rparr>))"

text \<open>
  The messages that an action passes to \<open>showError\<close>, as templates: the text pieces and
  the numbers put between them.
\<close>

datatype piece = Text string | Num int

text \<open>
  \<open>syncWithLocal\<close>, the action of the Sync button. \<open>folder\<close> is what the folder dialog
  returned (\<open>None\<close> when it was cancelled), \<open>result\<close> is how the promise of
  \<open>api.syncFolder\<close> settles: \<open>Inr\<close> the result, or \<open>Inl (String(err))\<close>. The value is the
  new state, the messages shown and the calls of the backend made through
  \<open>api.syncFolder\<close>. Without a profile and a bucket only a message is shown; with the
  dialog cancelled nothing happens.
\<close>

definition syncWithLocal ::
  "app \<Rightarrow> string option \<Rightarrow> string + SyncResult \<Rightarrow> app \<times> piece list list \<times> invoke_call list" where
  "syncWithLocal g folder result =
     (if falsy (currentProfileId g) \<or> falsy (currentBucket g)
      then (g, [[Text ''Please select a profile and bucket first'']], [])
      else if falsy folder then (g, [], [])
      else
        let path = (case folder of Some x \<Rightarrow> x | None \<Rightarrow> []);
            folderName = (if last_segment path = [] then ''folder'' else last_segment path);
            (task, g1) = addTask Sync folderName g;
            g2 = updateTaskStatus (task_id task) Running None g1;
            call = syncFolder
                     (case currentProfileId g of Some x \<Rightarrow> x | None \<Rightarrow> [])
                     (case currentBucket g of Some x \<Rightarrow> x | None \<Rightarrow> [])
                     (currentPrefix g) path ''local_to_remote''
        in case result of
             Inr r \<Rightarrow>
               (updateTaskStatus (task_id task) Completed None g2,
                [[Text ''Sync complete: '', Num (uploaded r), Text '' uploaded, '',
                  Num (downloaded r), Text '' downloaded, '', Num (skipped r),
                  Text '' skipped'']],
                [call])
           | Inl err \<Rightarrow> (updateTaskStatus (task_id task) Failed (Some err) g2, [], [call]))"


section \<open>Debouncing the search field\<close>

text \<open>
  The search field. Time is counted in milliseconds. The state holds the variables that
  \<open>handleSearchInput\<close> and its timer callback touch, the timers of the window that are
  pending (handle, time at which the timer is due, and the \<open>value\<close> that its callback has
  captured), the number of handles that \<open>setTimeout\<close> has handed out, and a log of the
  calls of \<open>loadObjects\<close> made by timer callbacks, each with its time and the search
  prefix it loads.
\<close>

record search =
  input_value :: string
  searchPrefix :: string
  searchTimeout :: "nat option"
  continuationToken :: "string option"
  tokenHistory :: "string list"
  clear_hidden :: bool
  timers :: "(nat \<times> nat \<times> string) list"
  timer_seq :: nat
  loads :: "(nat \<times> string) list"

text \<open>
  \<open>handleSearchInput\<close> at the time \<open>now\<close>. \<open>if (searchTimeout) clearTimeout(searchTimeout)\<close>
  cancels the timer with that handle when the handle is neither \<open>null\<close> nor 0;
  \<open>window.setTimeout\<close> hands out a new handle greater than zero, due after 300 ms.
\<close>

definition handleSearchInput :: "nat \<Rightarrow> search \<Rightarrow> search" where
  "handleSearchInput now s =
     (let v = input_value s;
          kept = (case searchTimeout s of
                    None \<Rightarrow> timers s
                  | Some h \<Rightarrow> if h \<noteq> 0 then filter (\<lambda>t. fst t \<noteq> h) (timers s) else timers s);
          h' = Suc (timer_seq s)
      in s\<lparr>clear_hidden := (v = []),
           timers := kept @ [(h', now + 300, v)],
           searchTimeout := Some h',
           timer_seq := h'\<rparr>)"

text \<open>The callback of a timer: the captured value becomes the search prefix, and the
  objects are loaded again from the first page.\<close>

definition fire :: "search \<Rightarrow> nat \<times> nat \<times> string \<Rightarrow> search" where
  "fire s t =
     s\<lparr>searchPrefix := snd (snd t), continuationToken := None, tokenHistory := [],
       loads := loads s @ [(fst (snd t), snd (snd t))]\<rparr>"

text \<open>
  Time passes up to \<open>T\<close>: the pending timers that are due by then fire, each at the time
  it is due, in the order in which they were set; the others stay pending.
\<close>

definition advance :: "nat \<Rightarrow> search \<Rightarrow> search" where
  "advance T s =
     foldl fire (s\<lparr>timers := filter (\<lambda>t. T < fst (snd t)) (timers s)\<rparr>)
       (filter (\<lambda>t. fst (snd t) \<le> T) (timers s))"

text \<open>
  An input event: at the time \<open>fst e\<close> the user changes the text of the field to \<open>snd e\<close>.
  The timers due by then have fired before the handler runs.
\<close>

definition input_event :: "search \<Rightarrow> nat \<times> string \<Rightarrow> search" where
  "input_event s e = handleSearchInput (fst e) ((advance (fst e) s)\<lparr>input_value := snd e\<rparr>)"

definition input_events :: "(nat \<times> string) list \<Rightarrow> search \<Rightarrow> search" where
  "input_events es s = foldl input_event s es"

text \<open>
  A burst: each event comes no earlier than the one before it and less than 300 ms
  after it.
\<close>

fun burst :: "(nat \<times> string) list \<Rightarrow> bool" where
  "burst [] = True"
| "burst [e] = True"
| "burst (e # e' # es) = (fst e \<le> fst e' \<and> fst e' < fst e + 300 \<and> burst (e' # es))"

text \<open>The search field when the application starts.\<close>

definition search_init :: search where
  "search_init =
     \<lparr>input_value = [], searchPrefix = [], searchTimeout = None, continuationToken = None,
      tokenHistory = [], clear_hidden = True, timers = [], timer_seq = 0, loads = []\<rparr>"

text \<open>After an event at the time \<open>t\<close> with the text \<open>v\<close>, exactly its own timer is pending.\<close>

definition armed :: "nat \<Rightarrow> string \<Rightarrow> search \<Rightarrow> bool" where
  "armed t v s \<longleftrightarrow>
     (\<exists>h. h \<noteq> 0 \<and> searchTimeout s = Some h \<and> timers s = [(h, t + 300, v)])"


section \<open>The one-shot sync engine\<close>

text \<open>
  Modelled from the spec: the one-shot sync itself (\<open>sync_folder\<close>, which \<open>api.syncFolder\<close>
  invokes) is in the backend and not among the sources; what follows is the sync engine
  as sections 3, 4.3 and 4.4 of the specification describe it. A \<open>FileEntry\<close> has a byte
  size, a fingerprint and a last-modified time; a side maps relative paths to entries.
\<close>

record FileEntry =
  byte_size :: nat
  fingerprint :: string
  last_modified :: nat

text \<open>Modelled from the spec: a \<open>SideMapping\<close>, from relative paths to entries; the first pair of a path counts.\<close>

type_synonym side = "(string \<times> FileEntry) list"

text \<open>Modelled from the spec: the operations that the planner produces, each for one relative path.\<close>

datatype SyncOperation =
  OpUpload string | OpDownload string | OpDeleteLocal string | OpDeleteRemote string
  | OpSkip string

text \<open>Modelled from the spec: the three directions of section 3.\<close>

datatype SyncDirection = LocalToRemote | RemoteToLocal | Bidirectional

text \<open>
  Modelled from the spec: the direction policy, with the switch that enables the
  deletion of entries that only the destination has (``never deletes remote entries
  absent locally unless explicitly enabled'').
\<close>

record sync_config =
  sync_direction :: SyncDirection
  delete_orphans :: bool

text \<open>
  Modelled from the spec: the state of a batch: both sides, the counts of the
  \<open>SyncResult\<close> and the operations that failed.
\<close>

record sync_state =
  local_side :: side
  remote_side :: side
  counts :: SyncResult
  failures :: "SyncOperation list"

text \<open>
  Modelled from the spec: writing and removing the entry of a path in a side.
\<close>

fun put :: "string \<Rightarrow> FileEntry \<Rightarrow> side \<Rightarrow> side" where
  "put p e [] = [(p, e)]"
| "put p e (x # xs) = (if fst x = p then (p, e) # xs else x # put p e xs)"

text \<open>Modelled from the spec: removing the entry of a path from a side.\<close>

definition drop_path :: "string \<Rightarrow> side \<Rightarrow> side" where
  "drop_path p xs = filter (\<lambda>x. fst x \<noteq> p) xs"

text \<open>
  Modelled from the spec: the Diff Planner of section 4.3 for one relative path, from the
  entries \<open>a\<close> and \<open>b\<close> that the local and the remote side have for it. Present only on the
  source side: transfer. Present only on the destination side: skip, or delete on the
  destination when orphans are deleted. Present on both: equal fingerprints skip,
  different ones transfer from the source; for \<open>Bidirectional\<close> both sides are sources,
  the newer entry wins and a tie is skipped.
\<close>

fun decide :: "sync_config \<Rightarrow> string \<Rightarrow> FileEntry option \<Rightarrow> FileEntry option \<Rightarrow> SyncOperation" where
  "decide cfg p None None = OpSkip p"
| "decide cfg p (Some a) None =
     (case sync_direction cfg of
        LocalToRemote \<Rightarrow> OpUpload p
      | Bidirectional \<Rightarrow> OpUpload p
      | RemoteToLocal \<Rightarrow> (if delete_orphans cfg then OpDeleteLocal p else OpSkip p))"
| "decide cfg p None (Some b) =
     (case sync_direction cfg of
        RemoteToLocal \<Rightarrow> OpDownload p
      | Bidirectional \<Rightarrow> OpDownload p
      | LocalToRemote \<Rightarrow> (if delete_orphans cfg then OpDeleteRemote p else OpSkip p))"
| "decide cfg p (Some a) (Some b) =
     (if fingerprint a = fingerprint b then OpSkip p
      else case sync_direction cfg of
        LocalToRemote \<Rightarrow> OpUpload p
      | RemoteToLocal \<Rightarrow> OpDownload p
      | Bidirectional \<Rightarrow>
          (if last_modified b < last_modified a then OpUpload p
           else if last_modified a < last_modified b then OpDownload p
           else OpSkip p))"

text \<open>
  Modelled from the spec: the relative paths in the union of both sides, the plan over
  them, and the order of execution: the deletions come after all transfers.
\<close>

definition paths :: "side \<Rightarrow> side \<Rightarrow> string list" where
  "paths l r = remdups (map fst l @ map fst r)"

text \<open>Modelled from the spec: the plan: one operation for each relative path of the union.\<close>

definition plan :: "sync_config \<Rightarrow> side \<Rightarrow> side \<Rightarrow> SyncOperation list" where
  "plan cfg l r = map (\<lambda>p. decide cfg p (map_of l p) (map_of r p)) (paths l r)"

text \<open>Modelled from the spec: which operations are deletions.\<close>

fun is_deletion :: "SyncOperation \<Rightarrow> bool" where
  "is_deletion (OpDeleteLocal p) = True"
| "is_deletion (OpDeleteRemote p) = True"
| "is_deletion op = False"

text \<open>Modelled from the spec: the order of execution, deletions after all transfers.\<close>

definition exec_order :: "SyncOperation list \<Rightarrow> SyncOperation list" where
  "exec_order ops = filter (\<lambda>op. \<not> is_deletion op) ops @ filter is_deletion ops"

text \<open>
  Modelled from the spec: the Task Scheduler of section 4.4 on one operation. \<open>ok op\<close>
  says whether the external primitive for the operation succeeds; \<open>stamp\<close> is the time
  that the written copy gets. On success the matching counter goes up; on failure the
  operation is recorded as failed and the batch goes on. A transfer writes the content
  of the source, so the copy has its size and fingerprint.
\<close>

fun exec_op :: "(SyncOperation \<Rightarrow> bool) \<Rightarrow> nat \<Rightarrow> sync_state \<Rightarrow> SyncOperation \<Rightarrow> sync_state" where
  "exec_op ok stamp st (OpSkip p) =
     st\<lparr>counts := (counts st)\<lparr>skipped := skipped (counts st) + 1\<rparr>\<rparr>"
| "exec_op ok stamp st (OpUpload p) =
     (case map_of (local_side st) p of
        Some e \<Rightarrow>
          if ok (OpUpload p)
          then st\<lparr>remote_side := put p (e\<lparr>last_modified := stamp\<rparr>) (remote_side st),
                  counts := (counts st)\<lparr>uploaded := uploaded (counts st) + 1\<rparr>\<rparr>
          else st\<lparr>failures := failures st @ [OpUpload p]\<rparr>
      | None \<Rightarrow> st\<lparr>failures := failures st @ [OpUpload p]\<rparr>)"
| "exec_op ok stamp st (OpDownload p) =
     (case map_of (remote_side st) p of
        Some e \<Rightarrow>
          if ok (OpDownload p)
          then st\<lparr>local_side := put p (e\<lparr>last_modified := stamp\<rparr>) (local_side st),
                  counts := (counts st)\<lparr>downloaded := downloaded (counts st) + 1\<rparr>\<rparr>
          else st\<lparr>failures := failures st @ [OpDownload p]\<rparr>
      | None \<Rightarrow> st\<lparr>failures := failures st @ [OpDownload p]\<rparr>)"
| "exec_op ok stamp st (OpDeleteLocal p) =
     (if ok (OpDeleteLocal p)
      then st\<lparr>local_side := drop_path p (local_side st),
              counts := (counts st)\<lparr>deleted := deleted (counts st) + 1\<rparr>\<rparr>
      else st\<lparr>failures := failures st @ [OpDeleteLocal p]\<rparr>)"
| "exec_op ok stamp st (OpDeleteRemote p) =
     (if ok (OpDeleteRemote p)
      then st\<lparr>remote_side := drop_path p (remote_side st),
              counts := (counts st)\<lparr>deleted := deleted (counts st) + 1\<rparr>\<rparr>
      else st\<lparr>failures := failures st @ [OpDeleteRemote p]\<rparr>)"

text \<open>
  Modelled from the spec: \<open>sync_once\<close>: enumerate, plan, execute; the value is the state
  in which the batch ends, whose counts are the \<open>SyncResult\<close>.
\<close>

definition batch_start :: "side \<Rightarrow> side \<Rightarrow> sync_state" where
  "batch_start l r =
     \<lparr>local_side = l, remote_side = r,
      counts = \<lparr>uploaded = 0, downloaded = 0, deleted = 0, skipped = 0\<rparr>,
      failures = []\<rparr>"

text \<open>Modelled from the spec: \<open>sync_once\<close>, the whole batch from the two sides.\<close>

definition sync_once ::
  "sync_config \<Rightarrow> (SyncOperation \<Rightarrow> bool) \<Rightarrow> nat \<Rightarrow> side \<Rightarrow> side \<Rightarrow> sync_state" where
  "sync_once cfg ok stamp l r =
     foldl (exec_op ok stamp) (batch_start l r) (exec_order (plan cfg l r))"

text \<open>
  Modelled from the spec: the path that an operation is about, and what a successful
  operation makes of the two entries of its path.
\<close>

fun path_of :: "SyncOperation \<Rightarrow> string" where
  "path_of (OpUpload p) = p"
| "path_of (OpDownload p) = p"
| "path_of (OpDeleteLocal p) = p"
| "path_of (OpDeleteRemote p) = p"
| "path_of (OpSkip p) = p"

text \<open>Modelled from the spec: what a successful operation makes of the local and the remote entry of its path.\<close>

fun effect ::
  "nat \<Rightarrow> SyncOperation \<Rightarrow> FileEntry option \<times> FileEntry option
   \<Rightarrow> FileEntry option \<times> FileEntry option" where
  "effect stamp (OpSkip p) ab = ab"
| "effect stamp (OpUpload p) ab =
     (fst ab, map_option (\<lambda>e. e\<lparr>last_modified := stamp\<rparr>) (fst ab))"
| "effect stamp (OpDownload p) ab =
     (map_option (\<lambda>e. e\<lparr>last_modified := stamp\<rparr>) (snd ab), snd ab)"
| "effect stamp (OpDeleteLocal p) ab = (None, snd ab)"
| "effect stamp (OpDeleteRemote p) ab = (fst ab, None)"

text \<open>Modelled from the spec: the local and the remote entry of a path in a state of the batch.\<close>

definition entries :: "sync_state \<Rightarrow> string \<Rightarrow> FileEntry option \<times> FileEntry option" where
  "entries st q = (map_of (local_side st) q, map_of (remote_side st) q)"

text \<open>
  Modelled from the spec: the sides of scenario A of the specification (a local file
  \<open>a.txt\<close> with the content X, an empty remote prefix) and the policy of the Sync action.
\<close>

definition demo_policy :: sync_config where
  "demo_policy = \<lparr>sync_direction = LocalToRemote, delete_orphans = False\<rparr>"

text \<open>Modelled from the spec: the local side of scenario A.\<close>

definition demo_local :: side where
  "demo_local = [(''a.txt'', \<lparr>byte_size = 1, fingerprint = ''X'', last_modified = 5\<rparr>)]"


section \<open>Terminal events of a batch\<close>










section \<open>Properties of the error log\<close>

lemma showError_errors:
  "length (errors s) \<le> 50 \<Longrightarrow> errors (showError m s) = m # take 49 (errors s)"
proof (cases "length (errors s) = 50")
  case True
  then have "butlast (errors s) = take 49 (errors s)"
    by (simp add: butlast_conv_take)
  with True show ?thesis
    by (cases "errors s") (simp_all add: showError_def Let_def)
next
  case False
  assume "length (errors s) \<le> 50"
  with False show ?thesis
    by (simp add: showError_def Let_def)
qed

lemma panel_call_bounded:
  "length (errors s) \<le> 50 \<Longrightarrow> length (errors (apply_call s c)) \<le> 50"
  by (cases c) (simp_all add: showError_errors clearErrors_def scrollErrors_def)

lemma foldl_panel_call_bounded:
  "length (errors s) \<le> 50 \<Longrightarrow> length (errors (foldl apply_call s cs)) \<le> 50"
  by (induction cs arbitrary: s) (simp_all add: panel_call_bounded)

lemma panel_calls_bounded: "length (errors (panel_calls cs)) \<le> 50"
  unfolding panel_calls_def
  by (rule foldl_panel_call_bounded) (simp add: error_panel_init_def)

text \<open>
  C8. After every sequence of \<open>showError\<close>, \<open>clearErrors\<close> (and \<open>scrollErrors\<close>) calls from
  the initial empty log, the log holds at most 50 messages; a further \<open>showError\<close> puts its
  message at index 0 in front of the former entries, of which only the newest 49 are kept,
  so the oldest entry is dropped exactly when the log was full.
\<close>

theorem error_log_bounded_newest_first:
  "length (errors (panel_calls cs)) \<le> 50
   \<and> errors (showError m (panel_calls cs)) = m # take 49 (errors (panel_calls cs))
   \<and> errors (showError m (panel_calls cs)) ! 0 = m
   \<and> length (errors (showError m (panel_calls cs))) \<le> 50
   \<and> (if length (errors (panel_calls cs)) = 50
        then errors (showError m (panel_calls cs)) = m # butlast (errors (panel_calls cs))
        else errors (showError m (panel_calls cs)) = m # errors (panel_calls cs))"
proof -
  have b: "length (errors (panel_calls cs)) \<le> 50"
    by (rule panel_calls_bounded)
  have e: "errors (showError m (panel_calls cs)) = m # take 49 (errors (panel_calls cs))"
    by (rule showError_errors [OF b])
  have l: "length (errors (showError m (panel_calls cs))) \<le> 50"
    using b by (simp add: e)
  have f: "length (errors (panel_calls cs)) = 50 \<Longrightarrow>
      take 49 (errors (panel_calls cs)) = butlast (errors (panel_calls cs))"
    by (simp add: butlast_conv_take)
  have g: "length (errors (panel_calls cs)) \<noteq> 50 \<Longrightarrow>
      take 49 (errors (panel_calls cs)) = errors (panel_calls cs)"
    using b by simp
  show ?thesis
    using b e l f g by simp
qed


section \<open>Properties of escapeHtml\<close>

lemma replace_all_Nil [simp]: "replace_all c r [] = []"
  by (simp add: replace_all_def)

lemma replace_all_Cons:
  "replace_all c r (x # xs) = (if x = c then r else [x]) @ replace_all c r xs"
  by (simp add: replace_all_def)

lemma replace_all_append:
  "replace_all c r (xs @ ys) = replace_all c r xs @ replace_all c r ys"
  by (simp add: replace_all_def)

lemma escapeHtml_Nil [simp]: "escapeHtml [] = []"
  by (simp add: escapeHtml_def)

lemma escapeHtml_Cons: "escapeHtml (c # cs) = escape_char c @ escapeHtml cs"
  by (simp add: escapeHtml_def escape_char_def replace_all_Cons replace_all_append)

lemma escapeHtml_concat: "escapeHtml str = concat (map escape_char str)"
  by (induction str) (simp_all add: escapeHtml_Cons)

lemma escape_char_no_markup:
  "CHR ''<'' \<notin> set (escape_char c) \<and> CHR ''>'' \<notin> set (escape_char c)
   \<and> CHR 0x22 \<notin> set (escape_char c)"
  by (simp add: escape_char_def)

lemma escapeHtml_no_markup:
  "CHR ''<'' \<notin> set (escapeHtml str) \<and> CHR ''>'' \<notin> set (escapeHtml str)
   \<and> CHR 0x22 \<notin> set (escapeHtml str)"
  using escape_char_no_markup by (induction str) (simp_all add: escapeHtml_Cons)

lemma amp_starts_entity_escape_char:
  "amp_starts_entity rest \<Longrightarrow> amp_starts_entity (escape_char c @ rest)"
  by (simp add: escape_char_def html_entities_def)

lemma amp_starts_entity_escapeHtml: "amp_starts_entity (escapeHtml str)"
  by (induction str) (simp_all add: escapeHtml_Cons amp_starts_entity_escape_char)

lemma amp_starts_entity_nth:
  "amp_starts_entity xs \<Longrightarrow> i < length xs \<Longrightarrow> xs ! i = CHR ''&'' \<Longrightarrow>
   \<exists>e \<in> set html_entities. take (length e) (drop i xs) = e"
proof (induction xs arbitrary: i)
  case Nil
  then show ?case by simp
next
  case (Cons c cs)
  show ?case
  proof (cases i)
    case 0
    with Cons.prems show ?thesis
      by (auto simp: list_ex_iff)
  next
    case (Suc j)
    with Cons.prems Cons.IH [of j] show ?thesis
      by simp
  qed
qed

text \<open>
  C9. For every input string the result of \<open>escapeHtml\<close> contains none of the characters
  \<open><\<close>, \<open>>\<close> and the double quote, and at every position of the result that holds an
  ampersand one of the entities \<open>&amp;\<close>, \<open>&lt;\<close>, \<open>&gt;\<close>, \<open>&quot;\<close> starts. The result is
  the concatenation of the per-character escapes, which is what replacing the ampersands
  first achieves: the ampersands that the later replacements introduce are not escaped again.
\<close>

theorem escapeHtml_safe:
  "CHR ''<'' \<notin> set (escapeHtml str) \<and> CHR ''>'' \<notin> set (escapeHtml str)
   \<and> CHR 0x22 \<notin> set (escapeHtml str)
   \<and> (\<forall>i < length (escapeHtml str). escapeHtml str ! i = CHR ''&'' \<longrightarrow>
        (\<exists>e \<in> set html_entities. take (length e) (drop i (escapeHtml str)) = e))
   \<and> escapeHtml str = concat (map escape_char str)"
  using escapeHtml_no_markup [of str] amp_starts_entity_escapeHtml [of str]
    amp_starts_entity_nth [of "escapeHtml str"] escapeHtml_concat [of str]
  by blast

theorem escapeHtml_safe_witness:
  "escapeHtml ''a<b & \"c\">'' = ''a&lt;b &amp; &quot;c&quot;&gt;''
   \<and> (2::nat) < length (escapeHtml ''a<b'') \<and> escapeHtml ''a<b'' ! 1 = CHR ''&''
   \<and> (\<exists>e \<in> set html_entities. take (length e) (drop 1 (escapeHtml ''a<b'')) = e)"
proof -
  have a: "escapeHtml ''a<b & \"c\">'' = ''a&lt;b &amp; &quot;c&quot;&gt;''"
    by (simp add: escapeHtml_def replace_all_def)
  have b: "escapeHtml ''a<b'' = ''a&lt;b''"
    by (simp add: escapeHtml_def replace_all_def)
  have c: "(1::nat) < length (escapeHtml ''a<b'')" "escapeHtml ''a<b'' ! 1 = CHR ''&''"
    by (simp_all add: b)
  from escapeHtml_safe [of "''a<b''"] c
  have "\<exists>e \<in> set html_entities. take (length e) (drop 1 (escapeHtml ''a<b'')) = e"
    by blast
  with a b show ?thesis by simp
qed


section \<open>Properties of the task pool\<close>

lemma pool_steps_cases [consumes 1, case_names enter leave dispatch suspend spin finish unregister resume]:
  assumes "s' \<in> set (pool_steps fn n s)"
  obtains
    (enter) "pc s = Outer" "queue s \<noteq> [] \<or> running s \<noteq> []" "s' = s\<lparr>pc := Inner\<rparr>"
  | (leave) "pc s = Outer" "queue s = []" "running s = []" "s' = s\<lparr>pc := Done\<rparr>"
  | (dispatch) x xs where "pc s = Inner" "length (running s) < n" "queue s = x # xs"
      "s' = dispatch fn s"
  | (suspend) "pc s = Inner" "\<not> (length (running s) < n \<and> queue s \<noteq> [])"
      "running s \<noteq> []" "s' = s\<lparr>pc := Await, race := None\<rparr>"
  | (spin) "pc s = Inner" "\<not> (length (running s) < n \<and> queue s \<noteq> [])"
      "running s = []" "s' = s\<lparr>pc := Outer\<rparr>"
  | (finish) ki where "pc s = Await" "ki \<in> set (working s)" "s' = finish fn ki s"
  | (unregister) kr rest where "pc s = Await" "finished s = kr # rest" "s' = unregister kr s"
  | (resume) r where "pc s = Await" "race s = Some r"
      "s' = s\<lparr>pc := (if r then Thrown else Outer), race := None\<rparr>"
proof (cases "pc s")
  case Outer
  with assms enter leave show thesis
    by (cases "queue s = [] \<and> running s = []") auto
next
  case Inner
  show thesis
  proof (cases "length (running s) < n \<and> queue s \<noteq> []")
    case True
    then obtain x xs where "queue s = x # xs"
      by (cases "queue s") auto
    with True Inner assms dispatch show thesis
      by simp
  next
    case False
    with Inner assms suspend spin show thesis
      by (cases "running s = []") auto
  qed
next
  case Await
  with assms have
    "(\<exists>ki \<in> set (working s). s' = finish fn ki s)
     \<or> (\<exists>kr rest. finished s = kr # rest \<and> s' = unregister kr s)
     \<or> (\<exists>r. race s = Some r \<and> s' = s\<lparr>pc := (if r then Thrown else Outer), race := None\<rparr>)"
    by (cases "finished s"; cases "race s") auto
  with Await finish unregister resume show thesis
    by blast
next
  case Done
  with assms show thesis by simp
next
  case Thrown
  with assms show thesis by simp
qed

declare pool_steps.simps [simp del]

lemma running_finish [simp]: "running (finish fn ki s) = running s"
  by (simp add: finish_def Let_def split: prod.splits)

lemma pool_steps_running_le:
  assumes "s' \<in> set (pool_steps fn n s)" and "length (running s) \<le> n"
  shows "length (running s') \<le> n"
  using assms(1)
proof (cases rule: pool_steps_cases)
  case (dispatch x xs)
  then show ?thesis
    by (simp add: dispatch_def Let_def Suc_leI)
next
  case (unregister kr rest)
  have "length (remove1 (fst kr) (running s)) \<le> length (running s)"
    by (simp add: length_remove1)
  with assms(2) unregister show ?thesis
    by (simp add: unregister_def)
qed (use assms(2) in simp_all)

lemma pool_reach_running_le:
  "pool_reach fn n s0 s \<Longrightarrow> length (running s0) \<le> n \<Longrightarrow> length (running s) \<le> n"
  by (induction rule: pool_reach.induct) (auto intro: pool_steps_running_le)

lemma pool_steps_weight:
  assumes "s' \<in> set (pool_steps fn n s)" and "1 \<le> n"
  shows "pool_weight s' < pool_weight s"
  using assms
proof (cases rule: pool_steps_cases)
  case (finish ki)
  from finish(2) obtain m where "length (working s) = Suc m"
    by (cases "working s") auto
  with finish show ?thesis
    by (simp add: pool_weight_def finish_def Let_def length_remove1 split: prod.splits option.splits)
next
  case (unregister kr rest)
  then show ?thesis
    by (simp add: pool_weight_def unregister_def split: option.splits)
qed (use assms(2) in \<open>auto simp: pool_weight_def dispatch_def Let_def\<close>)

lemma map_fst_remove1:
  "distinct (map fst xs) \<Longrightarrow> x \<in> set xs \<Longrightarrow> map fst (remove1 x xs) = remove1 (fst x) (map fst xs)"
  by (induction xs) (auto simp: rev_image_eqI)

lemma move_handle:
  "distinct (xs @ ys) \<Longrightarrow> k \<in> set xs \<Longrightarrow>
   distinct (remove1 k xs @ ys @ [k]) \<and> set (remove1 k xs @ ys @ [k]) = set (xs @ ys)"
  by auto

lemma pool_inv_init: "pool_inv items (pool_init items w)"
  by (simp add: pool_inv_def pool_init_def handles_def)

lemma pool_inv_step:
  assumes "s' \<in> set (pool_steps fn n s)" and "pool_inv items s"
  shows "pool_inv items s'"
  using assms(1)
proof (cases rule: pool_steps_cases)
  case (dispatch x xs)
  from assms(2) dispatch(3) have lt: "started s < length items"
    by (cases "started s < length items") (simp_all add: pool_inv_def)
  with assms(2) dispatch(3) have x: "x = items ! started s" "xs = drop (Suc (started s)) items"
    by (simp_all add: pool_inv_def Cons_nth_drop_Suc [symmetric])
  have e: "s' = s\<lparr>queue := xs, world := on_call fn (started s) x (world s),
           working := working s @ [(started s, x)],
           running := running s @ [started s],
           started := Suc (started s)\<rparr>"
    by (simp add: dispatch(3,4) dispatch_def Let_def)
  from assms(2) dispatch(1) lt show ?thesis
    unfolding e x
    by (auto simp: pool_inv_def handles_def less_Suc_eq)
next
  case (finish ki)
  from assms(2) have d: "distinct (map fst (working s))" "distinct (handles s)"
    by (simp_all add: pool_inv_def handles_def)
  obtain rej w where os: "on_settle fn (fst ki) (snd ki) (world s) = (rej, w)"
    by force
  have e: "s' = s\<lparr>world := w, working := remove1 ki (working s),
                   finished := finished s @ [(fst ki, rej)]\<rparr>"
    by (simp add: finish(3) finish_def os)
  have hs: "handles s' = remove1 (fst ki) (map fst (working s)) @ map fst (finished s) @ [fst ki]"
    by (simp add: e handles_def map_fst_remove1 d finish(2))
  from finish(2) have k: "fst ki \<in> set (map fst (working s))"
    by simp
  have h: "distinct (handles s')" "set (handles s') = set (handles s)"
    unfolding hs using move_handle [OF d(2) [unfolded handles_def] k]
    by (simp_all add: handles_def)
  have w: "\<forall>ki' \<in> set (working s'). snd ki' = items ! fst ki'"
    using assms(2) set_remove1_subset [of ki "working s"]
    by (auto simp: e pool_inv_def)
  have f: "queue s' = queue s" "started s' = started s" "pc s' = pc s" "race s' = race s"
    "running s' = running s"
    by (simp_all add: e)
  from assms(2) w h(1) finish(1) show ?thesis
    unfolding pool_inv_def f h(2) by simp
next
  case (unregister kr rest)
  have hs: "handles s = map fst (working s) @ fst kr # map fst rest"
    "handles s' = map fst (working s) @ map fst rest"
    by (simp_all add: handles_def unregister unregister_def)
  from assms(2) have d: "distinct (handles s)" "distinct (running s)"
    "set (running s) = set (handles s)"
    by (simp_all add: pool_inv_def)
  from d have r: "distinct (running s')" "set (running s') = set (handles s')"
    "distinct (handles s')"
    unfolding hs by (auto simp: unregister(3) unregister_def)
  have f: "queue s' = queue s" "started s' = started s" "pc s' = Await" "race s' \<noteq> None"
    "working s' = working s"
    by (simp_all add: unregister unregister_def split: option.splits)
  have "set (handles s') \<subseteq> set (handles s)"
    unfolding hs by auto
  with assms(2) r f(4) show ?thesis
    unfolding pool_inv_def f(1,2,3,5) by auto
next
  case enter
  with assms(2) show ?thesis by (simp add: pool_inv_def handles_def)
next
  case leave
  with assms(2) show ?thesis by (simp add: pool_inv_def handles_def)
next
  case suspend
  with assms(2) show ?thesis by (simp add: pool_inv_def handles_def)
next
  case spin
  with assms(2) show ?thesis by (simp add: pool_inv_def handles_def)
next
  case (resume r)
  with assms(2) show ?thesis by (simp add: pool_inv_def handles_def)
qed

lemma pool_reach_inv:
  "pool_reach fn n s0 s \<Longrightarrow> pool_inv items s0 \<Longrightarrow> pool_inv items s"
  by (induction rule: pool_reach.induct) (auto intro: pool_inv_step)

lemma pool_reach_trans:
  "pool_reach fn n s1 s2 \<Longrightarrow> pool_reach fn n s0 s1 \<Longrightarrow> pool_reach fn n s0 s2"
  by (induction rule: pool_reach.induct) (auto intro: pool_reach.intros)

lemma pool_progress:
  assumes "pool_inv items s" and "pc s \<noteq> Done" and "pc s \<noteq> Thrown"
  shows "pool_steps fn n s \<noteq> []"
proof (cases "pc s")
  case Await
  show ?thesis
  proof (cases "race s")
    case None
    with assms(1) Await have "handles s \<noteq> []"
      by (auto simp: pool_inv_def)
    then have "working s \<noteq> [] \<or> finished s \<noteq> []"
      by (simp add: handles_def)
    with Await show ?thesis
      by (auto simp: pool_steps.simps split: list.splits)
  next
    case (Some r)
    with Await show ?thesis
      by (simp add: pool_steps.simps)
  qed
qed (use assms in \<open>simp_all add: pool_steps.simps\<close>)

lemma pool_halts_inv:
  "1 \<le> n \<Longrightarrow> pool_inv items s \<Longrightarrow> pool_halts fn n s"
proof (induction "pool_weight s" arbitrary: s rule: less_induct)
  case less
  show ?case
  proof (cases "pc s = Done \<or> pc s = Thrown")
    case True
    then show ?thesis by (rule halts_final)
  next
    case False
    with less.prems have "pool_steps fn n s \<noteq> []"
      by (simp add: pool_progress)
    moreover have "pool_halts fn n s'" if "s' \<in> set (pool_steps fn n s)" for s'
      using that less by (simp add: pool_steps_weight pool_inv_step)
    ultimately show ?thesis by (rule halts_step)
  qed
qed

lemma pool_exec_returns:
  "1 \<le> n \<Longrightarrow> pool_inv items s \<Longrightarrow> pool_weight s \<le> fuel \<Longrightarrow>
   \<exists>s'. pool_exec fn n choices fuel s = Some s' \<and> (pc s' = Done \<or> pc s' = Thrown)
        \<and> pool_reach fn n s s'"
proof (induction fuel arbitrary: s choices)
  case 0
  then have "pc s = Done \<or> pc s = Thrown"
    by (cases "pc s") (auto simp: pool_weight_def split: option.splits if_splits)
  then show ?case
    by (auto intro: reach_init)
next
  case (Suc fuel)
  show ?case
  proof (cases "pc s = Done \<or> pc s = Thrown")
    case True
    then show ?thesis by (auto intro: reach_init)
  next
    case False
    with Suc.prems obtain t ts where ts: "pool_steps fn n s = t # ts"
      using pool_progress [of items s fn n] by (cases "pool_steps fn n s") auto
    define i where "i = (case choices of [] \<Rightarrow> 0 | c # _ \<Rightarrow> c mod length (t # ts))"
    have "i < length (t # ts)"
      by (simp add: i_def split: list.splits)
    then have m: "(t # ts) ! i \<in> set (pool_steps fn n s)"
      unfolding ts by (rule nth_mem)
    from Suc.prems m have "pool_weight ((t # ts) ! i) \<le> fuel" "pool_inv items ((t # ts) ! i)"
      using pool_steps_weight [OF m] pool_inv_step [OF m] by simp_all
    from Suc.IH [OF Suc.prems(1) this(2) this(1), of "tl choices"]
    obtain s' where s': "pool_exec fn n (tl choices) fuel ((t # ts) ! i) = Some s'"
      "pc s' = Done \<or> pc s' = Thrown" "pool_reach fn n ((t # ts) ! i) s'"
      by blast
    have "pool_reach fn n s ((t # ts) ! i)"
      using m by (blast intro: pool_reach.intros)
    with s'(3) have "pool_reach fn n s s'"
      by (rule pool_reach_trans)
    with s'(1,2) False ts show ?thesis
      by (simp add: i_def)
  qed
qed

section \<open>Properties of uploading files as tasks\<close>

lemma length_new_tasks [simp]: "length (new_tasks ty c names) = length names"
  by (induction names arbitrary: c) simp_all

lemma nth_new_tasks:
  "k < length names \<Longrightarrow>
   new_tasks ty c names ! k =
     \<lparr>task_id = Suc (c + k), task_type = ty, fileName = names ! k, status = Pending,
      error = None, syncId = None\<rparr>"
proof (induction names arbitrary: c k)
  case Nil
  then show ?case by simp
next
  case (Cons name names)
  then show ?case by (cases k) simp_all
qed

lemma find_update_first_at:
  "k < length xs \<Longrightarrow> P (xs ! k) \<Longrightarrow> \<forall>j < k. \<not> P (xs ! j) \<Longrightarrow>
   find P xs = Some (xs ! k) \<and> update_first P f xs = xs[k := f (xs ! k)]"
proof (induction xs arbitrary: k)
  case Nil
  then show ?case by simp
next
  case (Cons x xs)
  show ?case
  proof (cases k)
    case 0
    with Cons.prems show ?thesis by simp
  next
    case (Suc m)
    with Cons.prems have "\<not> P x" by auto
    moreover from Suc Cons.prems have "\<forall>j < m. \<not> P (xs ! j)" by auto
    ultimately show ?thesis
      using Suc Cons.prems Cons.IH [of m] by simp
  qed
qed

lemma updateTaskStatus_at:
  assumes "k < length (tasks w)" and "\<forall>j \<le> k. task_id (tasks w ! j) = Suc (c + j)"
  shows "updateTaskStatus (Suc (c + k)) st err w =
         w\<lparr>tasks := (tasks w)[k := set_status st err (tasks w ! k)],
           transitions := transitions w @ [(Suc (c + k), status (tasks w ! k), st)]\<rparr>"
proof -
  from assms(2) have "task_id (tasks w ! k) = Suc (c + k)"
    "\<forall>j < k. task_id (tasks w ! j) \<noteq> Suc (c + k)"
    by auto
  with find_update_first_at [OF assms(1), of "\<lambda>t. task_id t = Suc (c + k)"]
  show ?thesis
    by (simp add: updateTaskStatus_def)
qed

lemma world_inv_on_call:
  assumes inv: "world_inv outcome p b g filePaths ph n w"
    and n: "n < length filePaths" and ph: "ph n = 0"
    and t: "task_id t = Suc (taskIdCounter g + n)"
  shows "world_inv outcome p b g filePaths (ph(n := 1)) (Suc n)
           (on_call (upload_worker p b (currentPrefix g) outcome) n (filePaths ! n, t) w)"
proof -
  let ?c = "taskIdCounter g"
  from inv n have len: "n < length (tasks w)"
    and ids: "\<forall>j \<le> n. task_id (tasks w ! j) = Suc (?c + j)"
    by (simp_all add: world_inv_def)
  from inv n ph have old: "status (tasks w ! n) = Pending" "error (tasks w ! n) = None"
    "changes_of (length (transitions g)) (Suc (?c + n)) w = []"
    by (auto simp: world_inv_def lifecycle_def)
  have e: "on_call (upload_worker p b (currentPrefix g) outcome) n (filePaths ! n, t) w =
      w\<lparr>tasks := (tasks w)[n := set_status Running None (tasks w ! n)],
        transitions := transitions w @ [(Suc (?c + n), Pending, Running)],
        uploadFile_calls := uploadFile_calls w @ [(p, b, currentPrefix g, filePaths ! n)]\<rparr>"
    by (simp add: upload_worker_def t updateTaskStatus_at [OF len ids] old Let_def)
  from inv n old show ?thesis
    unfolding e
    by (auto simp: world_inv_def nth_list_update changes_of_def take_Suc_conv_app_nth
          lifecycle_def set_status_def)
qed

lemma world_inv_on_settle:
  assumes inv: "world_inv outcome p b g filePaths ph n w"
    and k: "k < length filePaths" and ph: "ph k = 1"
    and t: "task_id t = Suc (taskIdCounter g + k)"
  shows "world_inv outcome p b g filePaths (ph(k := 2)) n
           (snd (on_settle (upload_worker p b (currentPrefix g) outcome) k (filePaths ! k, t) w))"
proof -
  let ?c = "taskIdCounter g"
  from inv k have len: "k < length (tasks w)"
    and ids: "\<forall>j \<le> k. task_id (tasks w ! j) = Suc (?c + j)"
    by (simp_all add: world_inv_def)
  from inv k ph have old: "status (tasks w ! k) = Running" "error (tasks w ! k) = None"
    "changes_of (length (transitions g)) (Suc (?c + k)) w = [(Pending, Running)]"
    by (auto simp: world_inv_def lifecycle_def)
  have e: "snd (on_settle (upload_worker p b (currentPrefix g) outcome) k (filePaths ! k, t) w) =
      w\<lparr>tasks := (tasks w)[k := set_status (final_status (outcome k)) (outcome k) (tasks w ! k)],
        transitions := transitions w @ [(Suc (?c + k), Running, final_status (outcome k))]\<rparr>"
    by (cases "outcome k")
       (simp_all add: upload_worker_def t updateTaskStatus_at [OF len ids] old set_status_def)
  have se: "error (set_status (final_status (outcome k)) (outcome k) (tasks w ! k)) =
      final_error (outcome k)"
    by (cases "outcome k") (simp_all add: set_status_def old)
  from inv k old se show ?thesis
    unfolding e
    by (auto simp: world_inv_def nth_list_update changes_of_def lifecycle_def set_status_def)
qed

lemma pool_weight_init: "pool_weight (pool_init items w) \<le> 6 * length items + 3"
  by (simp add: pool_weight_def pool_init_def)

lemma uploadFilesWithTasks_Some:
  "uploadFilesWithTasks outcome g filePaths = Some (fn, s0) \<Longrightarrow>
   \<exists>p b. currentProfileId g = Some p \<and> currentBucket g = Some b \<and> p \<noteq> [] \<and> b \<noteq> []
     \<and> fn = upload_worker p b (currentPrefix g) outcome
     \<and> s0 = pool_init (upload_items g filePaths)
            (snd (addTasksBatch Upload (map file_name_of filePaths) g))"
  by (auto simp: uploadFilesWithTasks_def split: option.splits if_splits)

lemma pool_inv_working_le:
  assumes "pool_inv items s"
  shows "length (working s) \<le> length (running s)"
proof -
  from assms have "distinct (handles s)" "distinct (running s)"
    "set (running s) = set (handles s)"
    by (simp_all add: pool_inv_def)
  then have "length (running s) = length (handles s)"
    by (metis distinct_card)
  then show ?thesis
    by (simp add: handles_def)
qed

text \<open>
  C1. In every state of every run of the pool, over any list of items, with any worker
  and any limit \<open>n\<close>, the array \<open>running\<close> holds at most \<open>n\<close> promises, and at most \<open>n\<close>
  calls of the worker are pending. The limit that \<open>uploadFilesWithTasks\<close> passes is
  \<open>MAX_CONCURRENT_UPLOADS\<close>, which is 20, so an upload never has more than 20 calls in
  flight.
\<close>

theorem running_never_exceeds_limit:
  "(pool_reach fn n (pool_init items w) s \<longrightarrow>
      length (running s) \<le> n \<and> length (working s) \<le> n)
   \<and> MAX_CONCURRENT_UPLOADS = 20
   \<and> (upload_reach MAX_CONCURRENT_UPLOADS outcome g filePaths t \<longrightarrow>
      length (running t) \<le> 20 \<and> length (working t) \<le> 20)"
proof -
  have a: "length (running s) \<le> n \<and> length (working s) \<le> n"
    if "pool_reach fn n (pool_init items w) s"
  proof -
    from pool_reach_running_le [OF that] have r: "length (running s) \<le> n"
      by (simp add: pool_init_def)
    from pool_reach_inv [OF that pool_inv_init] have "length (working s) \<le> length (running s)"
      by (rule pool_inv_working_le)
    with r show ?thesis by simp
  qed
  have b: "length (running t) \<le> 20 \<and> length (working t) \<le> 20"
    if "upload_reach MAX_CONCURRENT_UPLOADS outcome g filePaths t"
  proof -
    from that obtain up s0 where
      u: "uploadFilesWithTasks outcome g filePaths = Some (up, s0)"
      and r: "pool_reach up MAX_CONCURRENT_UPLOADS s0 t"
      by (auto simp: upload_reach_def)
    from uploadFilesWithTasks_Some [OF u] obtain w where s0: "s0 = pool_init (upload_items g filePaths) w"
      by blast
    from pool_reach_running_le [OF r] have l: "length (running t) \<le> 20"
      by (simp add: MAX_CONCURRENT_UPLOADS_def s0 pool_init_def)
    from pool_reach_inv [OF r [unfolded s0] pool_inv_init]
    have "length (working t) \<le> length (running t)"
      by (rule pool_inv_working_le)
    with l show ?thesis by simp
  qed
  from a b show ?thesis
    by (simp add: MAX_CONCURRENT_UPLOADS_def)
qed

theorem running_never_exceeds_limit_witness:
  "pool_reach idle_worker 1 (pool_init [(), ()] ())
     (dispatch idle_worker ((pool_init [(), ()] ())\<lparr>pc := Inner\<rparr>))
   \<and> running (dispatch idle_worker ((pool_init [(), ()] ())\<lparr>pc := Inner\<rparr>)) = [0]
   \<and> length (running (dispatch idle_worker ((pool_init [(), ()] ())\<lparr>pc := Inner\<rparr>))) \<le> 1
   \<and> upload_reach MAX_CONCURRENT_UPLOADS (\<lambda>k. None) demo_app [''/tmp/a.txt'']
        (pool_init (upload_items demo_app [''/tmp/a.txt''])
           (snd (addTasksBatch Upload (map file_name_of [''/tmp/a.txt'']) demo_app)))
   \<and> length (running (pool_init (upload_items demo_app [''/tmp/a.txt''])
           (snd (addTasksBatch Upload (map file_name_of [''/tmp/a.txt'']) demo_app)))) \<le> 20"
proof -
  let ?s0 = "pool_init [(), ()] ()"
  let ?s1 = "?s0\<lparr>pc := Inner\<rparr>"
  let ?s2 = "dispatch idle_worker ?s1"
  have "?s1 \<in> set (pool_steps idle_worker 1 ?s0)"
    by (simp add: pool_steps.simps pool_init_def)
  then have r1: "pool_reach idle_worker 1 ?s0 ?s1"
    by (rule reach_step [OF reach_init])
  have "?s2 \<in> set (pool_steps idle_worker 1 ?s1)"
    by (simp add: pool_steps.simps pool_init_def)
  with r1 have r2: "pool_reach idle_worker 1 ?s0 ?s2"
    by (rule reach_step)
  let ?u0 = "pool_init (upload_items demo_app [''/tmp/a.txt''])
           (snd (addTasksBatch Upload (map file_name_of [''/tmp/a.txt'']) demo_app))"
  have u: "upload_reach MAX_CONCURRENT_UPLOADS (\<lambda>k. None) demo_app [''/tmp/a.txt''] ?u0"
    by (simp add: upload_reach_def uploadFilesWithTasks_def demo_app_def reach_init)
  have "running ?s2 = [0]"
    by (simp add: dispatch_def pool_init_def Let_def)
  with r2 u running_never_exceeds_limit [of idle_worker 1 "[(), ()]" "()" ?s2
      "\<lambda>k. None" demo_app "[''/tmp/a.txt'']" ?u0]
  show ?thesis by simp
qed

lemma length_upload_items [simp]: "length (upload_items g filePaths) = length filePaths"
  by (simp add: upload_items_def addTasksBatch_def Let_def)

lemma nth_upload_items:
  "k < length filePaths \<Longrightarrow>
   \<exists>t. upload_items g filePaths ! k = (filePaths ! k, t)
       \<and> task_id t = Suc (taskIdCounter g + k)"
  by (simp add: upload_items_def addTasksBatch_def Let_def nth_new_tasks)

lemma task_phase_unchanged:
  "started s' = started s \<Longrightarrow> working s' = working s \<Longrightarrow> task_phase s' = task_phase s"
  by (rule ext) (simp add: task_phase_def)

lemma batch_inv_init:
  "batch_inv outcome p b g filePaths
     (pool_init (upload_items g filePaths)
        (snd (addTasksBatch Upload (map file_name_of filePaths) g)))"
proof -
  have "world_inv outcome p b g filePaths (\<lambda>k. 0) 0
          (snd (addTasksBatch Upload (map file_name_of filePaths) g))"
    by (simp add: world_inv_def addTasksBatch_def Let_def nth_append nth_new_tasks
          changes_of_def lifecycle_def)
  moreover have "task_phase (pool_init (upload_items g filePaths)
        (snd (addTasksBatch Upload (map file_name_of filePaths) g))) = (\<lambda>k. 0)"
    by (simp add: task_phase_def pool_init_def fun_eq_iff)
  ultimately show ?thesis
    by (simp add: batch_inv_def pool_inv_init) (simp add: pool_init_def)
qed

lemma task_phase_dispatch:
  assumes "started s \<notin> set (map fst (working s))"
    and "started s' = Suc (started s)" and "working s' = working s @ [(started s, x)]"
  shows "task_phase s' = (task_phase s)(started s := 1)"
proof (rule ext)
  fix k
  show "task_phase s' k = ((task_phase s)(started s := 1)) k"
  proof (cases "k = started s")
    case True
    then show ?thesis by (simp add: task_phase_def assms(2,3))
  next
    case False
    then show ?thesis
      by (cases "started s < k") (auto simp: task_phase_def assms(2,3))
  qed
qed

lemma task_phase_finish:
  assumes "distinct (map fst (working s))" and "ki \<in> set (working s)"
    and "started s' = started s" and "working s' = remove1 ki (working s)"
    and "fst ki < started s"
  shows "task_phase s' = (task_phase s)(fst ki := 2)"
proof (rule ext)
  fix k
  from assms(1,2) have m: "map fst (working s') = remove1 (fst ki) (map fst (working s))"
    by (simp add: assms(4) map_fst_remove1)
  from assms(1) have "set (map fst (working s')) = set (map fst (working s)) - {fst ki}"
    unfolding m by (rule set_remove1_eq)
  then have mem: "k \<in> set (map fst (working s')) \<longleftrightarrow>
      k \<in> set (map fst (working s)) \<and> k \<noteq> fst ki"
    by blast
  show "task_phase s' k = ((task_phase s)(fst ki := 2)) k"
  proof (cases "k = fst ki")
    case True
    with assms(5) mem show ?thesis
      unfolding task_phase_def assms(3) by auto
  next
    case False
    with mem show ?thesis
      unfolding task_phase_def assms(3) by auto
  qed
qed

lemma batch_inv_step:
  assumes step: "s' \<in> set (pool_steps (upload_worker p b (currentPrefix g) outcome) n s)"
    and inv: "batch_inv outcome p b g filePaths s"
  shows "batch_inv outcome p b g filePaths s'"
proof -
  let ?fn = "upload_worker p b (currentPrefix g) outcome"
  let ?items = "upload_items g filePaths"
  from inv have pi: "pool_inv ?items s"
    and wi: "world_inv outcome p b g filePaths (task_phase s) (started s) (world s)"
    by (simp_all add: batch_inv_def)
  from step pi have pi': "pool_inv ?items s'"
    by (rule pool_inv_step)
  have "world_inv outcome p b g filePaths (task_phase s') (started s') (world s')"
    using step
  proof (cases rule: pool_steps_cases)
    case (dispatch x xs)
    from pi dispatch(3) have lt: "started s < length filePaths"
      by (cases "started s < length filePaths") (simp_all add: pool_inv_def)
    with pi dispatch(3) have x: "x = ?items ! started s"
      by (simp add: pool_inv_def Cons_nth_drop_Suc [symmetric])
    from nth_upload_items [OF lt, of g] x
    obtain t where xt: "x = (filePaths ! started s, t)"
      "task_id t = Suc (taskIdCounter g + started s)"
      by blast
    have e: "world s' = on_call ?fn (started s) (filePaths ! started s, t) (world s)"
      "started s' = Suc (started s)" "working s' = working s @ [(started s, x)]"
      by (simp_all add: dispatch(3,4) dispatch_def Let_def xt(1))
    from pi have "\<forall>k \<in> set (map fst (working s)). k < started s"
      unfolding pool_inv_def handles_def by simp
    then have "started s \<notin> set (map fst (working s))"
      by blast
    from task_phase_dispatch [OF this e(2,3)]
    have ph: "task_phase s' = (task_phase s)(started s := 1)" .
    have "task_phase s (started s) = 0"
      by (simp add: task_phase_def)
    from world_inv_on_call [OF wi lt this xt(2)] show ?thesis
      unfolding e(1,2) ph .
  next
    case (finish ki)
    from pi have d: "distinct (map fst (working s))"
      and b: "\<forall>k \<in> set (map fst (working s)). k < started s"
      and it: "\<forall>ki \<in> set (working s). snd ki = ?items ! fst ki"
      and le: "started s \<le> length filePaths"
      unfolding pool_inv_def handles_def by simp_all
    from b finish(2) have k: "fst ki < started s" by simp
    with le have lt: "fst ki < length filePaths" by simp
    from it finish(2) have "snd ki = ?items ! fst ki" by blast
    with nth_upload_items [OF lt, of g]
    obtain t where xt: "snd ki = (filePaths ! fst ki, t)"
      "task_id t = Suc (taskIdCounter g + fst ki)"
      by auto
    have e: "world s' = snd (on_settle ?fn (fst ki) (filePaths ! fst ki, t) (world s))"
      "started s' = started s" "working s' = remove1 ki (working s)"
      by (simp_all add: finish(3) finish_def Let_def xt(1) split: prod.splits)
    from task_phase_finish [OF d finish(2) e(2,3) k]
    have ph: "task_phase s' = (task_phase s)(fst ki := 2)" .
    from finish(2) k have "task_phase s (fst ki) = 1"
      by (simp add: task_phase_def)
    from world_inv_on_settle [OF wi lt this xt(2)] show ?thesis
      unfolding e(1,2) ph .
  next
    case (unregister kr rest)
    then have u: "started s' = started s" "working s' = working s" "world s' = world s"
      by (simp_all add: unregister_def)
    from wi show ?thesis
      unfolding u(1,3) task_phase_unchanged [OF u(1,2)] .
  next
    case enter
    then have u: "started s' = started s" "working s' = working s" "world s' = world s"
      by simp_all
    from wi show ?thesis
      unfolding u(1,3) task_phase_unchanged [OF u(1,2)] .
  next
    case leave
    then have u: "started s' = started s" "working s' = working s" "world s' = world s"
      by simp_all
    from wi show ?thesis
      unfolding u(1,3) task_phase_unchanged [OF u(1,2)] .
  next
    case suspend
    then have u: "started s' = started s" "working s' = working s" "world s' = world s"
      by simp_all
    from wi show ?thesis
      unfolding u(1,3) task_phase_unchanged [OF u(1,2)] .
  next
    case spin
    then have u: "started s' = started s" "working s' = working s" "world s' = world s"
      by simp_all
    from wi show ?thesis
      unfolding u(1,3) task_phase_unchanged [OF u(1,2)] .
  next
    case (resume r)
    then have u: "started s' = started s" "working s' = working s" "world s' = world s"
      by simp_all
    from wi show ?thesis
      unfolding u(1,3) task_phase_unchanged [OF u(1,2)] .
  qed
  with pi' show ?thesis
    by (simp add: batch_inv_def)
qed

lemma batch_inv_reach:
  "pool_reach (upload_worker p b (currentPrefix g) outcome) n s0 s \<Longrightarrow>
   batch_inv outcome p b g filePaths s0 \<Longrightarrow> batch_inv outcome p b g filePaths s"
  by (induction rule: pool_reach.induct) (auto intro: batch_inv_step)

lemma calm_step:
  assumes "s' \<in> set (pool_steps fn n s)" and "never_rejects fn" and "calm s"
  shows "calm s'"
  using assms(1)
proof (cases rule: pool_steps_cases)
  case (finish ki)
  obtain rej w where os: "on_settle fn (fst ki) (snd ki) (world s) = (rej, w)"
    by force
  with assms(2) have "\<not> rej"
    unfolding never_rejects_def by (metis fst_conv)
  with assms(3) finish os show ?thesis
    by (auto simp: calm_def finish_def)
next
  case (unregister kr rest)
  with assms(3) show ?thesis
    by (auto simp: calm_def unregister_def split: option.splits)
next
  case (dispatch x xs)
  with assms(3) show ?thesis
    by (simp add: calm_def dispatch_def Let_def)
next
  case (resume r)
  with assms(3) show ?thesis
    by (auto simp: calm_def)
qed (use assms(3) in \<open>simp_all add: calm_def\<close>)

lemma calm_reach:
  "pool_reach fn n s0 s \<Longrightarrow> never_rejects fn \<Longrightarrow> calm s0 \<Longrightarrow> calm s"
  by (induction rule: pool_reach.induct) (auto intro: calm_step)

lemma calm_init: "calm (pool_init items w)"
  by (simp add: calm_def pool_init_def)

lemma upload_worker_never_rejects: "never_rejects (upload_worker p b x outcome)"
  by (simp add: never_rejects_def upload_worker_def)

lemma pool_exec_reach:
  "pool_exec fn n choices fuel s = Some s' \<Longrightarrow> pool_reach fn n s s'"
proof (induction fuel arbitrary: s choices)
  case 0
  then show ?case
    by (auto split: if_splits intro: reach_init)
next
  case (Suc fuel)
  show ?case
  proof (cases "pc s = Done \<or> pc s = Thrown")
    case True
    with Suc.prems show ?thesis
      by (auto intro: reach_init)
  next
    case False
    with Suc.prems obtain t ts where ts: "pool_steps fn n s = t # ts"
      by (cases "pool_steps fn n s") auto
    define i where "i = (case choices of [] \<Rightarrow> 0 | c # _ \<Rightarrow> c mod length (t # ts))"
    have "i < length (t # ts)"
      by (simp add: i_def split: list.splits)
    then have m: "(t # ts) ! i \<in> set (pool_steps fn n s)"
      unfolding ts by (rule nth_mem)
    from Suc.prems False ts have "pool_exec fn n (tl choices) fuel ((t # ts) ! i) = Some s'"
      by (simp add: i_def)
    then have "pool_reach fn n ((t # ts) ! i) s'"
      by (rule Suc.IH)
    moreover have "pool_reach fn n s ((t # ts) ! i)"
      using m by (blast intro: pool_reach.intros)
    ultimately show ?thesis
      by (rule pool_reach_trans)
  qed
qed

lemma upload_reach_inv:
  assumes "upload_reach n outcome g filePaths s"
  obtains p b where "currentProfileId g = Some p" "currentBucket g = Some b"
    "batch_inv outcome p b g filePaths s" "calm s"
    "pool_reach (upload_worker p b (currentPrefix g) outcome) n
       (pool_init (upload_items g filePaths)
          (snd (addTasksBatch Upload (map file_name_of filePaths) g))) s"
proof -
  from assms obtain fn s0 where u: "uploadFilesWithTasks outcome g filePaths = Some (fn, s0)"
    and r: "pool_reach fn n s0 s"
    by (auto simp: upload_reach_def)
  from uploadFilesWithTasks_Some [OF u] obtain p b where
    pb: "currentProfileId g = Some p" "currentBucket g = Some b"
    "fn = upload_worker p b (currentPrefix g) outcome"
    "s0 = pool_init (upload_items g filePaths)
            (snd (addTasksBatch Upload (map file_name_of filePaths) g))"
    by blast
  from r have "batch_inv outcome p b g filePaths s"
    unfolding pb(3,4) by (rule batch_inv_reach) (rule batch_inv_init)
  moreover from r have "calm s"
    unfolding pb(3,4) by (rule calm_reach) (rule upload_worker_never_rejects, rule calm_init)
  ultimately show thesis
    using pb r that by blast
qed

lemma batch_inv_Done:
  assumes "batch_inv outcome p b g filePaths s" and "pc s = Done" and "k < length filePaths"
  shows "task_phase s k = 2" and "started s = length filePaths"
proof -
  from assms(1) have pi: "pool_inv (upload_items g filePaths) s"
    by (simp add: batch_inv_def)
  with assms(2) have q: "queue s = []" "running s = []"
    unfolding pool_inv_def by blast+
  from pi have "queue s = drop (started s) (upload_items g filePaths)"
    "started s \<le> length (upload_items g filePaths)" "set (running s) = set (handles s)"
    unfolding pool_inv_def by blast+
  with q show st: "started s = length filePaths" and "task_phase s k = 2"
    using assms(3) by (auto simp: task_phase_def handles_def)
qed

lemma lifecycle_changes:
  "snd (snd (lifecycle result ph)) = [] \<or> snd (snd (lifecycle result ph)) = [(Pending, Running)]
   \<or> snd (snd (lifecycle result ph)) = [(Pending, Running), (Running, Completed)]
   \<or> snd (snd (lifecycle result ph)) = [(Pending, Running), (Running, Failed)]"
  by (cases result) (simp_all add: lifecycle_def)

lemma upload_halts:
  assumes "upload_reach n outcome g filePaths s" and "1 \<le> n"
  shows "\<exists>fn s0 s'. uploadFilesWithTasks outcome g filePaths = Some (fn, s0)
           \<and> pool_halts fn n s0
           \<and> pool_exec fn n choices (6 * length filePaths + 3) s0 = Some s' \<and> pc s' = Done"
proof -
  from assms(1) obtain fn s0 where u: "uploadFilesWithTasks outcome g filePaths = Some (fn, s0)"
    by (auto simp: upload_reach_def)
  from uploadFilesWithTasks_Some [OF u] obtain p b where
    pb: "fn = upload_worker p b (currentPrefix g) outcome"
    "s0 = pool_init (upload_items g filePaths)
            (snd (addTasksBatch Upload (map file_name_of filePaths) g))"
    by blast
  have i: "pool_inv (upload_items g filePaths) s0"
    unfolding pb by (rule pool_inv_init)
  have w: "pool_weight s0 \<le> 6 * length filePaths + 3"
    unfolding pb using pool_weight_init [of "upload_items g filePaths"] by simp
  from pool_exec_returns [OF assms(2) i w, of fn choices]
  obtain s' where s': "pool_exec fn n choices (6 * length filePaths + 3) s0 = Some s'"
    "pc s' = Done \<or> pc s' = Thrown" "pool_reach fn n s0 s'"
    by blast
  from s'(3) have "calm s'"
    unfolding pb by (rule calm_reach) (rule upload_worker_never_rejects, rule calm_init)
  with s'(2) have "pc s' = Done"
    by (simp add: calm_def)
  with u s'(1) pool_halts_inv [OF assms(2) i, of fn] show ?thesis
    by blast
qed

text \<open>
  C2. In every state of an upload batch, under any limit and any order in which the
  uploads settle, the status changes logged for the task of the file with index \<open>k\<close>
  are a prefix of pending to running, running to completed or failed: the task goes
  from pending to running at most once, never from running to running, and nothing
  follows a terminal status. \<open>api.uploadFile\<close> has been called once for each of the first
  \<open>started\<close> files, in order, and for no other. When the pool has returned, every task
  has made both changes and every file has been passed to \<open>api.uploadFile\<close> exactly once.
  With a limit of at least 1 the pool does return, under every schedule.
\<close>

theorem upload_tasks_run_once:
  assumes "upload_reach n outcome g filePaths s" and "k < length filePaths"
  shows "task_id (tasks (world s) ! k) = Suc (taskIdCounter g + k)
    \<and> (changes_of (length (transitions g)) (Suc (taskIdCounter g + k)) (world s) = []
       \<or> changes_of (length (transitions g)) (Suc (taskIdCounter g + k)) (world s)
          = [(Pending, Running)]
       \<or> changes_of (length (transitions g)) (Suc (taskIdCounter g + k)) (world s)
          = [(Pending, Running), (Running, Completed)]
       \<or> changes_of (length (transitions g)) (Suc (taskIdCounter g + k)) (world s)
          = [(Pending, Running), (Running, Failed)])
    \<and> (\<exists>p b. currentProfileId g = Some p \<and> currentBucket g = Some b
          \<and> uploadFile_calls (world s) =
              uploadFile_calls g
              @ map (\<lambda>filePath. (p, b, currentPrefix g, filePath)) (take (started s) filePaths))
    \<and> started s \<le> length filePaths
    \<and> pc s \<noteq> Thrown
    \<and> (pc s = Done \<longrightarrow>
          started s = length filePaths
          \<and> changes_of (length (transitions g)) (Suc (taskIdCounter g + k)) (world s)
             = [(Pending, Running), (Running, final_status (outcome k))]
          \<and> status (tasks (world s) ! k) = final_status (outcome k))
    \<and> (1 \<le> n \<longrightarrow>
          (\<exists>fn s0 s'. uploadFilesWithTasks outcome g filePaths = Some (fn, s0)
             \<and> pool_halts fn n s0
             \<and> pool_exec fn n choices (6 * length filePaths + 3) s0 = Some s'
             \<and> pc s' = Done))"
proof -
  from assms(1) obtain p b where pb: "currentProfileId g = Some p" "currentBucket g = Some b"
    and bi: "batch_inv outcome p b g filePaths s" and c: "calm s"
    by (rule upload_reach_inv)
  from bi have wi: "world_inv outcome p b g filePaths (task_phase s) (started s) (world s)"
    and pi: "pool_inv (upload_items g filePaths) s"
    by (simp_all add: batch_inv_def)
  let ?ch = "changes_of (length (transitions g)) (Suc (taskIdCounter g + k)) (world s)"
  from wi assms(2) have id: "task_id (tasks (world s) ! k) = Suc (taskIdCounter g + k)"
    and lc: "(status (tasks (world s) ! k), error (tasks (world s) ! k), ?ch)
             = lifecycle (outcome k) (task_phase s k)"
    and calls: "uploadFile_calls (world s) =
              uploadFile_calls g
              @ map (\<lambda>filePath. (p, b, currentPrefix g, filePath)) (take (started s) filePaths)"
    unfolding world_inv_def by blast+
  from lc have ch: "?ch = snd (snd (lifecycle (outcome k) (task_phase s k)))"
    by (metis snd_conv)
  have a: "?ch = [] \<or> ?ch = [(Pending, Running)]
      \<or> ?ch = [(Pending, Running), (Running, Completed)]
      \<or> ?ch = [(Pending, Running), (Running, Failed)]"
    unfolding ch by (rule lifecycle_changes)
  from pi have st: "started s \<le> length filePaths"
    by (simp add: pool_inv_def)
  from c have nt: "pc s \<noteq> Thrown"
    by (simp add: calm_def)
  have d: "started s = length filePaths
      \<and> ?ch = [(Pending, Running), (Running, final_status (outcome k))]
      \<and> status (tasks (world s) ! k) = final_status (outcome k)" if "pc s = Done"
    using batch_inv_Done [OF bi that assms(2)] lc by (simp add: lifecycle_def)
  have h: "\<exists>fn s0 s'. uploadFilesWithTasks outcome g filePaths = Some (fn, s0)
             \<and> pool_halts fn n s0
             \<and> pool_exec fn n choices (6 * length filePaths + 3) s0 = Some s'
             \<and> pc s' = Done" if "1 \<le> n"
    using assms(1) that by (rule upload_halts)
  from id a pb calls st nt d h show ?thesis
    by blast
qed

text \<open>
  C3, as amended. In every state of an upload batch the status and the error of each
  task are those of its own place in its own life cycle: they depend on the outcome of
  its own upload and on no other. When the pool has returned, the task of every file
  whose upload was rejected is failed, with the reason recorded when the reason is not
  the empty string, the task of every other file is completed, and the tasks that
  existed before the batch are as they were. The loop never throws, and with a limit of
  at least 1 it returns under every schedule, so a rejected upload stops no other.
\<close>

theorem upload_failure_is_isolated:
  assumes "upload_reach n outcome g filePaths s" and "k < length filePaths"
  shows "(status (tasks (world s) ! k), error (tasks (world s) ! k),
          changes_of (length (transitions g)) (Suc (taskIdCounter g + k)) (world s))
         = lifecycle (outcome k) (task_phase s k)
    \<and> pc s \<noteq> Thrown
    \<and> drop (length filePaths) (tasks (world s)) = tasks g
    \<and> (pc s = Done \<longrightarrow>
          status (tasks (world s) ! k) = final_status (outcome k)
          \<and> error (tasks (world s) ! k) = final_error (outcome k))
    \<and> (1 \<le> n \<longrightarrow>
          (\<exists>fn s0 s'. uploadFilesWithTasks outcome g filePaths = Some (fn, s0)
             \<and> pool_halts fn n s0
             \<and> pool_exec fn n choices (6 * length filePaths + 3) s0 = Some s'
             \<and> pc s' = Done))"
proof -
  from assms(1) obtain p b where
    bi: "batch_inv outcome p b g filePaths s" and c: "calm s"
    by (rule upload_reach_inv)
  from bi have wi: "world_inv outcome p b g filePaths (task_phase s) (started s) (world s)"
    by (simp add: batch_inv_def)
  let ?ch = "changes_of (length (transitions g)) (Suc (taskIdCounter g + k)) (world s)"
  from wi assms(2) have
    lc: "(status (tasks (world s) ! k), error (tasks (world s) ! k), ?ch)
             = lifecycle (outcome k) (task_phase s k)"
    and old: "drop (length filePaths) (tasks (world s)) = tasks g"
    unfolding world_inv_def by blast+
  from c have nt: "pc s \<noteq> Thrown"
    by (simp add: calm_def)
  have d: "status (tasks (world s) ! k) = final_status (outcome k)
      \<and> error (tasks (world s) ! k) = final_error (outcome k)" if "pc s = Done"
    using batch_inv_Done [OF bi that assms(2)] lc by (simp add: lifecycle_def)
  have h: "\<exists>fn s0 s'. uploadFilesWithTasks outcome g filePaths = Some (fn, s0)
             \<and> pool_halts fn n s0
             \<and> pool_exec fn n choices (6 * length filePaths + 3) s0 = Some s'
             \<and> pc s' = Done" if "1 \<le> n"
    using assms(1) that by (rule upload_halts)
  from lc nt old d h show ?thesis
    by blast
qed

lemma demo_exec:
  "pool_exec (upload_worker ''p1'' ''photos'' ''in/'' demo_outcome) 1 [] 20 demo_start
   = Some demo_final"
  by code_simp

lemma demo_reach: "upload_reach 1 demo_outcome demo_app [''/tmp/a.txt'', ''b.txt''] demo_final"
proof -
  have "uploadFilesWithTasks demo_outcome demo_app [''/tmp/a.txt'', ''b.txt'']
        = Some (upload_worker ''p1'' ''photos'' ''in/'' demo_outcome, demo_start)"
    by (simp add: uploadFilesWithTasks_def demo_app_def demo_start_def)
  with pool_exec_reach [OF demo_exec] show ?thesis
    unfolding upload_reach_def by blast
qed

theorem upload_tasks_run_once_witness:
  "upload_reach 1 demo_outcome demo_app [''/tmp/a.txt'', ''b.txt''] demo_final
   \<and> (1::nat) < length [''/tmp/a.txt'', ''b.txt'']
   \<and> pc demo_final = Done
   \<and> changes_of (length (transitions demo_app)) (Suc (taskIdCounter demo_app + 1))
        (world demo_final) = [(Pending, Running), (Running, Completed)]
   \<and> started demo_final = 2
   \<and> (1::nat) \<le> 1
   \<and> (\<exists>fn s0 s'. uploadFilesWithTasks demo_outcome demo_app [''/tmp/a.txt'', ''b.txt'']
           = Some (fn, s0)
         \<and> pool_halts fn 1 s0
         \<and> pool_exec fn 1 [] (6 * length [''/tmp/a.txt'', ''b.txt''] + 3) s0 = Some s'
         \<and> pc s' = Done)"
proof -
  have k: "(1::nat) < length [''/tmp/a.txt'', ''b.txt'']" by simp
  have d: "pc demo_final = Done" by (simp add: demo_final_def)
  from upload_tasks_run_once [OF demo_reach k, of "[]"] d demo_reach
  show ?thesis
    by (simp add: demo_outcome_def)
qed

theorem upload_failure_is_isolated_witness:
  "upload_reach 1 demo_outcome demo_app [''/tmp/a.txt'', ''b.txt''] demo_final
   \<and> (1::nat) < length [''/tmp/a.txt'', ''b.txt'']
   \<and> pc demo_final = Done
   \<and> status (tasks (world demo_final) ! 0) = Failed
   \<and> error (tasks (world demo_final) ! 0) = Some ''denied''
   \<and> status (tasks (world demo_final) ! 1) = Completed
   \<and> error (tasks (world demo_final) ! 1) = None
   \<and> (1::nat) \<le> 1
   \<and> (\<exists>fn s0 s'. uploadFilesWithTasks demo_outcome demo_app [''/tmp/a.txt'', ''b.txt'']
           = Some (fn, s0)
         \<and> pool_halts fn 1 s0
         \<and> pool_exec fn 1 [] (6 * length [''/tmp/a.txt'', ''b.txt''] + 3) s0 = Some s'
         \<and> pc s' = Done)"
proof -
  have k: "(1::nat) < length [''/tmp/a.txt'', ''b.txt'']" "(0::nat) < length [''/tmp/a.txt'', ''b.txt'']"
    by simp_all
  have d: "pc demo_final = Done" by (simp add: demo_final_def)
  from upload_failure_is_isolated [OF demo_reach k(1), of "[]"]
    upload_failure_is_isolated [OF demo_reach k(2), of "[]"] d demo_reach
  show ?thesis
    by (simp add: demo_outcome_def)
qed

text \<open>
  A rejection whose reason is the empty string: \<open>String(err)\<close> is falsy, so
  \<open>updateTaskStatus\<close> leaves \<open>task.error\<close> unset. The task is failed and holds no reason.
\<close>

theorem empty_reason_counterexample:
  "uploadFilesWithTasks (\<lambda>k. Some []) demo_app [''/tmp/a.txt'']
     = Some (upload_worker ''p1'' ''photos'' ''in/'' (\<lambda>k. Some []),
             pool_init (upload_items demo_app [''/tmp/a.txt''])
               (snd (addTasksBatch Upload (map file_name_of [''/tmp/a.txt'']) demo_app)))
   \<and> map_option (\<lambda>s. (pc s, status (tasks (world s) ! 0), error (tasks (world s) ! 0)))
       (pool_exec (upload_worker ''p1'' ''photos'' ''in/'' (\<lambda>k. Some []))
          MAX_CONCURRENT_UPLOADS [] 20
          (pool_init (upload_items demo_app [''/tmp/a.txt''])
             (snd (addTasksBatch Upload (map file_name_of [''/tmp/a.txt'']) demo_app))))
     = Some (Done, Failed, None)"
proof -
  have "map_option (\<lambda>s. (pc s, status (tasks (world s) ! 0), error (tasks (world s) ! 0)))
       (pool_exec (upload_worker ''p1'' ''photos'' ''in/'' (\<lambda>k. Some []))
          MAX_CONCURRENT_UPLOADS [] 20
          (pool_init (upload_items demo_app [''/tmp/a.txt''])
             (snd (addTasksBatch Upload (map file_name_of [''/tmp/a.txt'']) demo_app))))
     = Some (Done, Failed, None)"
    by code_simp
  then show ?thesis
    by (simp add: uploadFilesWithTasks_def demo_app_def)
qed

section \<open>Properties of the Sync action\<close>

text \<open>
  C7. Whatever the state, the folder that the dialog returns and the way the call
  settles, every call of the backend that the Sync action makes through \<open>api.syncFolder\<close>
  is \<open>sync_folder\<close> with the direction \<open>local_to_remote\<close>; and with a profile and a bucket
  selected and a folder chosen there is exactly one such call, for that profile, bucket,
  prefix and folder.
\<close>

theorem sync_action_local_to_remote:
  "(\<forall>c \<in> set (snd (snd (syncWithLocal g folder result))).
      command c = ''sync_folder''
      \<and> map_of (arguments c) ''direction'' = Some ''local_to_remote'')
   \<and> (currentProfileId g = Some p \<and> p \<noteq> [] \<and> currentBucket g = Some b \<and> b \<noteq> []
       \<and> folder = Some path \<and> path \<noteq> [] \<longrightarrow>
       snd (snd (syncWithLocal g folder result))
         = [syncFolder p b (currentPrefix g) path ''local_to_remote''])"
  by (cases result)
     (auto simp: syncWithLocal_def syncFolder_def Let_def addTask_def split: prod.splits)

theorem sync_action_local_to_remote_witness:
  "snd (snd (syncWithLocal demo_app (Some ''/home/u/pics'')
       (Inr \<lparr>uploaded = 1, downloaded = 0, deleted = 0, skipped = 2\<rparr>)))
   = [\<lparr>command = ''sync_folder'',
       arguments = [(''profileId'', ''p1''), (''bucket'', ''photos''), (''prefix'', ''in/''),
                    (''localPath'', ''/home/u/pics''), (''direction'', ''local_to_remote'')]\<rparr>]
   \<and> map_of (arguments (hd (snd (snd (syncWithLocal demo_app (Some ''/home/u/pics'')
       (Inr \<lparr>uploaded = 1, downloaded = 0, deleted = 0, skipped = 2\<rparr>)))))) ''direction''
     = Some ''local_to_remote''"
proof -
  have e: "snd (snd (syncWithLocal demo_app (Some ''/home/u/pics'')
       (Inr \<lparr>uploaded = 1, downloaded = 0, deleted = 0, skipped = 2\<rparr>)))
     = [syncFolder ''p1'' ''photos'' ''in/'' ''/home/u/pics'' ''local_to_remote'']"
    using sync_action_local_to_remote [of demo_app "Some ''/home/u/pics''"
        "Inr \<lparr>uploaded = 1, downloaded = 0, deleted = 0, skipped = 2\<rparr>"
        "''p1''" "''photos''" "''/home/u/pics''"]
    by (simp add: demo_app_def)
  then show ?thesis
    by (simp add: syncFolder_def)
qed

section \<open>Properties of debouncing\<close>

lemma advance_no_timer [simp]: "timers s = [] \<Longrightarrow> advance T s = s"
  by (simp add: advance_def)

lemma armed_first:
  "timers s = [] \<Longrightarrow> armed (fst e) (snd e) (input_event s e)
     \<and> loads (input_event s e) = loads s"
  by (auto simp: input_event_def handleSearchInput_def armed_def Let_def split: option.splits)

lemma armed_next:
  assumes "armed t v s" and "fst e < t + 300"
  shows "armed (fst e) (snd e) (input_event s e) \<and> loads (input_event s e) = loads s"
proof -
  from assms(1) obtain h where h: "h \<noteq> 0" "searchTimeout s = Some h"
    "timers s = [(h, t + 300, v)]"
    by (auto simp: armed_def)
  from assms(2) h(3) have a: "advance (fst e) s = s"
    by (cases s) (simp add: advance_def)
  show ?thesis
    unfolding input_event_def a
    by (simp add: handleSearchInput_def armed_def Let_def h)
qed

lemma armed_burst:
  "armed t v s \<Longrightarrow> burst ((t, v) # es) \<Longrightarrow>
   armed (fst (last ((t, v) # es))) (snd (last ((t, v) # es))) (foldl input_event s es)
   \<and> loads (foldl input_event s es) = loads s"
proof (induction es arbitrary: t v s)
  case Nil
  then show ?case by simp
next
  case (Cons e es)
  from Cons.prems(2) have lt: "fst e < t + 300" and b: "burst ((fst e, snd e) # es)"
    by simp_all
  from armed_next [OF Cons.prems(1) lt]
  have a: "armed (fst e) (snd e) (input_event s e)" and l: "loads (input_event s e) = loads s"
    by simp_all
  from Cons.IH [OF a b] l show ?case
    by simp
qed

lemma armed_advance:
  assumes "armed t v s"
  shows "T < t + 300 \<Longrightarrow> advance T s = s"
    and "t + 300 \<le> T \<Longrightarrow> loads (advance T s) = loads s @ [(t + 300, v)]"
    and "t + 300 \<le> T \<Longrightarrow> searchPrefix (advance T s) = v"
    and "t + 300 \<le> T \<Longrightarrow> timers (advance T s) = []"
proof -
  from assms obtain h where h: "timers s = [(h, t + 300, v)]"
    by (auto simp: armed_def)
  show "T < t + 300 \<Longrightarrow> advance T s = s"
    using h by (cases s) (simp add: advance_def)
  show "t + 300 \<le> T \<Longrightarrow> loads (advance T s) = loads s @ [(t + 300, v)]"
    using h by (simp add: advance_def fire_def)
  show "t + 300 \<le> T \<Longrightarrow> searchPrefix (advance T s) = v"
    using h by (simp add: advance_def fire_def)
  show "t + 300 \<le> T \<Longrightarrow> timers (advance T s) = []"
    using h by (simp add: advance_def fire_def)
qed

lemma burst_armed:
  assumes "timers s = []" and "es \<noteq> []" and "burst es"
  shows "armed (fst (last es)) (snd (last es)) (input_events es s)
     \<and> loads (input_events es s) = loads s"
proof -
  from assms(2) obtain e rest where es: "es = e # rest"
    by (cases es) auto
  from armed_first [OF assms(1), of e]
  have a: "armed (fst e) (snd e) (input_event s e)" and l: "loads (input_event s e) = loads s"
    by simp_all
  from assms(3) have "burst ((fst e, snd e) # rest)"
    by (simp add: es)
  from armed_burst [OF a this] l show ?thesis
    by (simp add: es input_events_def)
qed

text \<open>
  C5. From a state with no pending timer, a burst of one or more input events, each less
  than 300 ms after the one before it, triggers exactly one reload: every event cancels the
  pending timer and sets a new one, so after the burst exactly one timer is pending and
  nothing has been loaded; nothing is loaded before 300 ms have passed since the last
  event; and once they have passed, exactly one call of \<open>loadObjects\<close> has been made, at
  300 ms after the last event and with the text of the last event as the search prefix.
\<close>

theorem debounce_single_reload:
  assumes "timers s = []" and "es \<noteq> []" and "burst es"
  shows "loads (input_events es s) = loads s
    \<and> length (timers (input_events es s)) = 1
    \<and> (T < fst (last es) + 300 \<longrightarrow> loads (advance T (input_events es s)) = loads s)
    \<and> (fst (last es) + 300 \<le> T \<longrightarrow>
          loads (advance T (input_events es s))
            = loads s @ [(fst (last es) + 300, snd (last es))]
          \<and> searchPrefix (advance T (input_events es s)) = snd (last es)
          \<and> timers (advance T (input_events es s)) = [])"
proof -
  from burst_armed [OF assms]
  have a: "armed (fst (last es)) (snd (last es)) (input_events es s)"
    and l: "loads (input_events es s) = loads s"
    by simp_all
  from a have "length (timers (input_events es s)) = 1"
    by (auto simp: armed_def)
  with l armed_advance [OF a, of T] show ?thesis
    by simp
qed

theorem debounce_single_reload_witness:
  "timers search_init = [] \<and> [(0, ''a''), (100, ''ab''), (350, ''abc'')] \<noteq> []
   \<and> burst [(0, ''a''), (100, ''ab''), (350, ''abc'')]
   \<and> loads (advance 649 (input_events [(0, ''a''), (100, ''ab''), (350, ''abc'')] search_init)) = []
   \<and> loads (advance 1000 (input_events [(0, ''a''), (100, ''ab''), (350, ''abc'')] search_init))
       = [(650, ''abc'')]"
proof -
  have h: "timers search_init = []" "[(0::nat, ''a''), (100, ''ab''), (350, ''abc'')] \<noteq> []"
    "burst [(0, ''a''), (100, ''ab''), (350, ''abc'')]"
    by (simp_all add: search_init_def)
  from debounce_single_reload [OF h, of 649] debounce_single_reload [OF h, of 1000] h
  show ?thesis
    by (simp add: search_init_def)
qed

section \<open>Properties of the one-shot sync engine\<close>

lemma map_of_put: "map_of (put p e xs) = (map_of xs)(p \<mapsto> e)"
  by (induction xs) (auto simp: fun_eq_iff)

lemma map_of_drop_path: "map_of (drop_path p xs) = (map_of xs)(p := None)"
  by (induction xs) (auto simp: drop_path_def fun_eq_iff)

lemma path_of_decide [simp]: "path_of (decide cfg p a b) = p"
  by (cases a; cases b; cases "sync_direction cfg") simp_all

lemma failures_exec_op:
  "\<exists>more. failures (exec_op ok stamp st op) = failures st @ more"
  by (cases op) (simp_all split: option.splits)

lemma failures_foldl:
  "\<exists>more. failures (foldl (exec_op ok stamp) st ops) = failures st @ more"
proof (induction ops arbitrary: st)
  case Nil
  then show ?case by simp
next
  case (Cons op ops)
  from failures_exec_op [of ok stamp st op] Cons [of "exec_op ok stamp st op"]
  show ?case by auto
qed

lemma exec_op_other:
  "q \<noteq> path_of op \<Longrightarrow> entries (exec_op ok stamp st op) q = entries st q"
  by (cases op) (simp_all add: entries_def map_of_put map_of_drop_path split: option.splits)

lemma exec_op_own:
  "failures (exec_op ok stamp st op) = failures st \<Longrightarrow>
   entries (exec_op ok stamp st op) (path_of op) = effect stamp op (entries st (path_of op))"
  by (cases op)
     (auto simp: entries_def map_of_put map_of_drop_path split: option.splits if_splits)

lemma foldl_other:
  "q \<notin> path_of ` set ops \<Longrightarrow> entries (foldl (exec_op ok stamp) st ops) q = entries st q"
  by (induction ops arbitrary: st) (simp_all add: exec_op_other)

lemma foldl_own:
  assumes "distinct (map path_of ops)" and "op \<in> set ops"
    and "failures (foldl (exec_op ok stamp) st ops) = []"
  shows "entries (foldl (exec_op ok stamp) st ops) (path_of op)
         = effect stamp op (entries st (path_of op))"
  using assms
proof (induction ops arbitrary: st)
  case Nil
  then show ?case by simp
next
  case (Cons x xs)
  let ?st = "exec_op ok stamp st x"
  from failures_foldl [of ok stamp ?st xs] Cons.prems(3)
  have f1: "failures ?st = []" by auto
  with failures_exec_op [of ok stamp st x] have f0: "failures ?st = failures st" by auto
  show ?case
  proof (cases "op = x")
    case True
    with Cons.prems(1) have "path_of op \<notin> path_of ` set xs" by auto
    then have "entries (foldl (exec_op ok stamp) ?st xs) (path_of op) = entries ?st (path_of op)"
      by (rule foldl_other)
    with True exec_op_own [OF f0] show ?thesis by simp
  next
    case False
    with Cons.prems(2) have m: "op \<in> set xs" by simp
    with Cons.prems(1) have ne: "path_of op \<noteq> path_of x"
      by (metis distinct.simps(2) image_eqI list.simps(9) list.set_map)
    from Cons.prems(1,3) have "distinct (map path_of xs)"
      "failures (foldl (exec_op ok stamp) ?st xs) = []"
      by simp_all
    from Cons.IH [OF this(1) m this(2)] exec_op_other [OF ne, of ok stamp st] show ?thesis
      by simp
  qed
qed

lemma decide_settled:
  assumes "op = decide cfg p a b" and "ab = effect stamp op (a, b)"
  shows "decide cfg p (fst ab) (snd ab) = OpSkip p"
  using assms
  by (cases a; cases b; cases "sync_direction cfg") (auto split: if_splits)

lemma distinct_exec_order:
  assumes "distinct (map path_of ops)"
  shows "distinct (map path_of (exec_order ops))"
proof -
  from assms have "distinct (map path_of (filter (\<lambda>op. \<not> is_deletion op) ops))"
    "distinct (map path_of (filter is_deletion ops))"
    by (simp_all add: distinct_map_filter)
  moreover have "path_of ` {op \<in> set ops. \<not> is_deletion op}
      \<inter> path_of ` {op \<in> set ops. is_deletion op} = {}"
  proof (rule ccontr)
    assume "\<not> ?thesis"
    then obtain x y where xy: "x \<in> set ops" "y \<in> set ops" "\<not> is_deletion x" "is_deletion y"
      "path_of x = path_of y"
      by auto
    from assms have "inj_on path_of (set ops)"
      by (simp add: distinct_map)
    with xy(1,2,5) have "x = y"
      by (auto dest: inj_onD)
    with xy(3,4) show False by simp
  qed
  ultimately show ?thesis
    by (simp add: exec_order_def)
qed

lemma set_exec_order [simp]: "set (exec_order ops) = set ops"
  by (auto simp: exec_order_def)

lemma map_path_of_plan: "map path_of (plan cfg l r) = paths l r"
  by (simp add: plan_def comp_def)

lemma map_of_outside: "q \<notin> set (map fst xs) \<Longrightarrow> map_of xs q = None"
  by (simp add: map_of_eq_None_iff)

lemma entries_batch_start [simp]: "entries (batch_start l r) q = (map_of l q, map_of r q)"
  by (simp add: entries_def batch_start_def)

lemma sync_once_settles:
  assumes "failures (sync_once cfg ok stamp l r) = []"
  shows "decide cfg q (map_of (local_side (sync_once cfg ok stamp l r)) q)
           (map_of (remote_side (sync_once cfg ok stamp l r)) q) = OpSkip q"
proof (cases "q \<in> set (paths l r)")
  case True
  let ?op = "decide cfg q (map_of l q) (map_of r q)"
  from True have m: "?op \<in> set (exec_order (plan cfg l r))"
    by (simp add: plan_def)
  have d: "distinct (map path_of (exec_order (plan cfg l r)))"
    by (rule distinct_exec_order) (simp add: map_path_of_plan paths_def)
  from foldl_own [OF d m assms [unfolded sync_once_def]]
  have "entries (sync_once cfg ok stamp l r) q = effect stamp ?op (map_of l q, map_of r q)"
    by (simp add: sync_once_def)
  from decide_settled [OF refl this] show ?thesis
    by (simp add: entries_def)
next
  case False
  then have n: "map_of l q = None" "map_of r q = None"
    by (simp_all add: paths_def map_of_eq_None_iff)
  from False have "q \<notin> path_of ` set (exec_order (plan cfg l r))"
    using map_path_of_plan [of cfg l r] by (metis list.set_map set_exec_order)
  then have "entries (sync_once cfg ok stamp l r) q = entries (batch_start l r) q"
    unfolding sync_once_def by (rule foldl_other)
  with n show ?thesis
    by (simp add: entries_def batch_start_def)
qed

lemma run_skips:
  "foldl (exec_op ok stamp) st (map OpSkip ps) =
   st\<lparr>counts := (counts st)\<lparr>skipped := skipped (counts st) + int (length ps)\<rparr>\<rparr>"
  by (induction ps arbitrary: st) simp_all

lemma exec_order_skips [simp]: "exec_order (map OpSkip ps) = map OpSkip ps"
  by (induction ps) (simp_all add: exec_order_def)

text \<open>
  C6, as amended. When the first run of the one-shot sync has completed with no failed
  operation, a second run on the sides as the first run left them, whatever the
  direction policy, uploads, downloads and deletes nothing, fails nowhere, leaves both
  sides as they are and skips every entry: its skipped count is the number of relative
  paths on the two sides.
\<close>

theorem sync_twice_skips_all:
  assumes "failures (sync_once cfg ok stamp l r) = []"
  shows "sync_once cfg ok' stamp'
           (local_side (sync_once cfg ok stamp l r)) (remote_side (sync_once cfg ok stamp l r))
         = \<lparr>local_side = local_side (sync_once cfg ok stamp l r),
            remote_side = remote_side (sync_once cfg ok stamp l r),
            counts = \<lparr>uploaded = 0, downloaded = 0, deleted = 0,
                      skipped = int (length (paths (local_side (sync_once cfg ok stamp l r))
                                                   (remote_side (sync_once cfg ok stamp l r))))\<rparr>,
            failures = []\<rparr>"
proof -
  let ?l = "local_side (sync_once cfg ok stamp l r)"
  let ?r = "remote_side (sync_once cfg ok stamp l r)"
  have "plan cfg ?l ?r = map OpSkip (paths ?l ?r)"
    unfolding plan_def using sync_once_settles [OF assms] by simp
  then show ?thesis
    by (simp add: sync_once_def run_skips batch_start_def)
qed

theorem sync_twice_skips_all_witness:
  "failures (sync_once demo_policy (\<lambda>op. True) 10 demo_local []) = []
   \<and> counts (sync_once demo_policy (\<lambda>op. True) 10 demo_local [])
       = \<lparr>uploaded = 1, downloaded = 0, deleted = 0, skipped = 0\<rparr>
   \<and> counts (sync_once demo_policy (\<lambda>op. True) 20
         (local_side (sync_once demo_policy (\<lambda>op. True) 10 demo_local []))
         (remote_side (sync_once demo_policy (\<lambda>op. True) 10 demo_local [])))
       = \<lparr>uploaded = 0, downloaded = 0, deleted = 0, skipped = 1\<rparr>"
proof -
  have e: "sync_once demo_policy (\<lambda>op. True) 10 demo_local []
      = \<lparr>local_side = demo_local,
         remote_side = [(''a.txt'', \<lparr>byte_size = 1, fingerprint = ''X'', last_modified = 10\<rparr>)],
         counts = \<lparr>uploaded = 1, downloaded = 0, deleted = 0, skipped = 0\<rparr>,
         failures = []\<rparr>"
    by (simp add: sync_once_def plan_def paths_def exec_order_def batch_start_def
          demo_policy_def demo_local_def)
  then have f: "failures (sync_once demo_policy (\<lambda>op. True) 10 demo_local []) = []"
    by simp
  from sync_twice_skips_all [OF f, of "\<lambda>op. True" 20] e show ?thesis
    by (simp add: paths_def demo_local_def)
qed

text \<open>
  A first run whose only upload fails changes nothing and reports the failure; the
  second run, with no change in between, then uploads the file.
\<close>

theorem sync_twice_counterexample:
  "counts (sync_once demo_policy (\<lambda>op. False) 10 demo_local [])
     = \<lparr>uploaded = 0, downloaded = 0, deleted = 0, skipped = 0\<rparr>
   \<and> failures (sync_once demo_policy (\<lambda>op. False) 10 demo_local []) = [OpUpload ''a.txt'']
   \<and> local_side (sync_once demo_policy (\<lambda>op. False) 10 demo_local []) = demo_local
   \<and> remote_side (sync_once demo_policy (\<lambda>op. False) 10 demo_local []) = []
   \<and> counts (sync_once demo_policy (\<lambda>op. True) 20
         (local_side (sync_once demo_policy (\<lambda>op. False) 10 demo_local []))
         (remote_side (sync_once demo_policy (\<lambda>op. False) 10 demo_local [])))
       = \<lparr>uploaded = 1, downloaded = 0, deleted = 0, skipped = 0\<rparr>"
  by (simp add: sync_once_def plan_def paths_def exec_order_def batch_start_def
        demo_policy_def demo_local_def)


section \<open>Termination of the task pool\<close>












section \<open>Properties of the terminal events of a batch\<close>



lemma length_exec_order [simp]: "length (exec_order ops) = length ops"
  by (simp add: exec_order_def sum_length_filter_compl add.commute)




end
